theory Spec2Isabelle
  imports Main "HOL-Library.Sublist"
begin

section \<open>Data model\<close>

text \<open>
  The evaluator of \<^verbatim>\<open>src/index.ts\<close> is generic in the node type \<open>T\<close>; nodes are opaque
  handles, compared by identity. Here the node type is the type variable \<open>'n\<close> and identity
  is equality on \<open>'n\<close>. The adapter (\<^verbatim>\<open>Operations<T>\<close>) is a record of nine functions. An
  accessor that returns \<^verbatim>\<open>T | null\<close> returns an \<open>option\<close>; \<^verbatim>\<open>getChildren\<close> returns the
  finite ordered sequence of the children. The adapter's functions are taken to be pure and
  total, as the interface's types say.
\<close>

record 'n Operations =
  getTagName :: "'n \<Rightarrow> string"
  getContent :: "'n \<Rightarrow> string"
  getID :: "'n \<Rightarrow> string"
  hasClass :: "'n \<Rightarrow> string \<Rightarrow> bool"
  getParent :: "'n \<Rightarrow> 'n option"
  getChildren :: "'n \<Rightarrow> 'n list"
  getAttribute :: "'n \<Rightarrow> string \<Rightarrow> string option"
  getPreviouSibling :: "'n \<Rightarrow> 'n option"
  getNextSibling :: "'n \<Rightarrow> 'n option"

text \<open>
  The selector syntax tree is produced by the external package \<^verbatim>\<open>selector-parser\<close>; the
  types below are the part of it that \<^verbatim>\<open>src/index.ts\<close> reads. The attribute operators are
  the six keys of the table \<^verbatim>\<open>matchers\<close>:
  \<^verbatim>\<open>=\<close> (\<open>Equals\<close>), \<^verbatim>\<open>~=\<close> (\<open>Includes\<close>), \<^verbatim>\<open>|=\<close> (\<open>DashMatch\<close>), \<^verbatim>\<open>^=\<close> (\<open>PrefixMatch\<close>),
  \<^verbatim>\<open>$=\<close> (\<open>SuffixMatch\<close>) and \<^verbatim>\<open>*=\<close> (\<open>SubstringMatch\<close>).
\<close>

datatype CombinatorKind = Descendant | Child | NextSibling | SubsequentSibling | Column

datatype AttributeMatcher =
  Equals | Includes | DashMatch | PrefixMatch | SuffixMatch | SubstringMatch

text \<open>
  \<open>Attribute name None\<close> is an attribute selector whose \<^verbatim>\<open>match\<close> is \<^verbatim>\<open>undefined\<close>;
  \<open>Attribute name (Some (m, v))\<close> has \<^verbatim>\<open>match.matcher = m\<close> and \<^verbatim>\<open>match.value.value = v\<close>.
\<close>

datatype SubClassSelector =
  ID string
| Class string
| Attribute string "(AttributeMatcher \<times> string) option"
| PseudoClass string
| PseudoElement string

record CompoundSelector =
  type :: "string option"
  subclasses :: "SubClassSelector list option"
  pseudoes :: "SubClassSelector list option"

record ComplexSelector =
  head :: CompoundSelector
  tail :: "(CombinatorKind \<times> CompoundSelector) list"

text \<open>
  A call either returns a value, raises, or does not return. \<open>None\<close> is a call that does
  not return; \<open>Some (Inl e)\<close> is a raised error; \<open>Some (Inr v)\<close> is the returned value.
\<close>

datatype error = SyntaxError | ColumnNotSupported

type_synonym 'a result = "(error + 'a) option"

section \<open>Attribute matchers\<close>

text \<open>
  \<^verbatim>\<open>value.split(/ +/)\<close>: the pieces of \<open>value\<close> between the maximal runs of the space
  character U+0020. The first argument is the piece being read. A leading or a trailing
  run of spaces gives an empty first or last piece, and the empty string gives one empty
  piece.
\<close>

function split_spaces :: "string \<Rightarrow> string \<Rightarrow> string list" where
  "split_spaces cur [] = [cur]"
| "split_spaces cur (c # cs) =
     (if c = CHR '' '' then cur # split_spaces [] (dropWhile (\<lambda>d. d = CHR '' '') cs)
      else split_spaces (cur @ [c]) cs)"
  by pat_completeness auto
termination
  by (relation "measure (\<lambda>(cur, cs). length cs)")
     (auto simp: less_Suc_eq_le length_dropWhile_le)

fun startsWith :: "string \<Rightarrow> string \<Rightarrow> bool" where
  "startsWith value [] = True"
| "startsWith [] (e # es) = False"
| "startsWith (v # vs) (e # es) = (v = e \<and> startsWith vs es)"

definition endsWith :: "string \<Rightarrow> string \<Rightarrow> bool" where
  "endsWith value expected = startsWith (rev value) (rev expected)"

fun includes_str :: "string \<Rightarrow> string \<Rightarrow> bool" where
  "includes_str [] expected = (expected = [])"
| "includes_str (v # vs) expected =
     (startsWith (v # vs) expected \<or> includes_str vs expected)"

fun matchers :: "AttributeMatcher \<Rightarrow> string \<Rightarrow> string \<Rightarrow> bool" where
  "matchers Equals value expected = (value = expected)"
| "matchers Includes value expected = (expected \<in> set (split_spaces [] value))"
| "matchers DashMatch value expected =
     (value = expected \<or> startsWith value (expected @ ''-''))"
| "matchers PrefixMatch value expected = startsWith value expected"
| "matchers SuffixMatch value expected = endsWith value expected"
| "matchers SubstringMatch value expected = includes_str value expected"

section \<open>Combinator collectors\<close>

text \<open>
  Each collector owns a result array and a \<^verbatim>\<open>WeakSet\<close> of the nodes already pushed; the
  pair of both is the state of its loops. \<open>push_unique\<close> is the block
  \<^verbatim>\<open>if (!deduplicator.has(t)) { result.push(t); deduplicator.add(t); }\<close>.
\<close>

type_synonym 'n collected = "'n list \<times> 'n set"

definition push_unique :: "'n \<Rightarrow> 'n collected \<Rightarrow> 'n collected" where
  "push_unique t st =
     (if t \<in> snd st then st else (fst st @ [t], insert t (snd st)))"

text \<open>
  The loop \<^verbatim>\<open>while (t) { ...; t = step(t); }\<close> of the Descendant collector
  (\<open>step = getParent\<close>) and of the SubsequentSibling collector
  (\<open>step = getPreviouSibling\<close>). It does not return when the chain never reaches
  \<^verbatim>\<open>null\<close>.
\<close>

partial_function (option) collect_chain ::
  "('n \<Rightarrow> 'n option) \<Rightarrow> 'n option \<Rightarrow> 'n collected \<Rightarrow> 'n collected option" where
  "collect_chain step t st =
     (case t of
        None \<Rightarrow> Some st
      | Some n \<Rightarrow> collect_chain step (step n) (push_unique n st))"

declare collect_chain.simps [code]

text \<open>The single step of the Child and NextSibling collectors.\<close>

definition collect_one :: "('n \<Rightarrow> 'n option) \<Rightarrow> 'n \<Rightarrow> 'n collected \<Rightarrow> 'n collected option" where
  "collect_one step node st =
     (case step node of None \<Rightarrow> Some st | Some t \<Rightarrow> Some (push_unique t st))"

text \<open>\<^verbatim>\<open>for (const node of nodes) body\<close>, where the body may not return.\<close>

fun for_nodes ::
  "('n \<Rightarrow> 'n collected \<Rightarrow> 'n collected option) \<Rightarrow> 'n list \<Rightarrow> 'n collected \<Rightarrow> 'n collected option" where
  "for_nodes body [] st = Some st"
| "for_nodes body (node # nodes) st =
     (case body node st of None \<Rightarrow> None | Some st' \<Rightarrow> for_nodes body nodes st')"

fun collectors :: "'n Operations \<Rightarrow> CombinatorKind \<Rightarrow> 'n list \<Rightarrow> 'n list result" where
  "collectors ops Descendant nodes =
     map_option (\<lambda>st. Inr (fst st))
       (for_nodes (\<lambda>node. collect_chain (getParent ops) (getParent ops node)) nodes ([], {}))"
| "collectors ops Child nodes =
     map_option (\<lambda>st. Inr (fst st))
       (for_nodes (collect_one (getParent ops)) nodes ([], {}))"
| "collectors ops NextSibling nodes =
     map_option (\<lambda>st. Inr (fst st))
       (for_nodes (collect_one (getPreviouSibling ops)) nodes ([], {}))"
| "collectors ops SubsequentSibling nodes =
     map_option (\<lambda>st. Inr (fst st))
       (for_nodes (\<lambda>node. collect_chain (getPreviouSibling ops) (getPreviouSibling ops node))
          nodes ([], {}))"
| "collectors ops Column nodes = Some (Inl ColumnNotSupported)"

section \<open>Preorder traversal\<close>

text \<open>
  \<^verbatim>\<open>preorderDepthFirstTraverse\<close> is a recursive generator. A running generator is the stack
  of its activations: \<open>Start node includeRoot\<close> is an activation that has not run yet,
  \<open>Children cs\<close> is an activation inside its \<^verbatim>\<open>for\<close> loop with the children \<open>cs\<close> still to
  visit. \<open>next_node\<close> runs the generator up to its next \<^verbatim>\<open>yield\<close>: it gives the node and
  the suspended generator, or \<open>None\<close> when the generator is done.
\<close>

datatype 'n frame = Start 'n bool | Children "'n list"

function next_node :: "'n Operations \<Rightarrow> 'n frame list \<Rightarrow> ('n \<times> 'n frame list) option" where
  "next_node ops [] = None"
| "next_node ops (Start node True # rest) =
     Some (node, Children (getChildren ops node) # rest)"
| "next_node ops (Start node False # rest) =
     next_node ops (Children (getChildren ops node) # rest)"
| "next_node ops (Children [] # rest) = next_node ops rest"
| "next_node ops (Children (child # cs) # rest) =
     next_node ops (Start child True # Children cs # rest)"
  by pat_completeness auto
termination
  by (relation "measure (\<lambda>(ops, st). sum_list (map (\<lambda>f. case f of
          Start node b \<Rightarrow> if b then 0 else 2 * length (getChildren ops node) + 2
        | Children cs \<Rightarrow> 2 * length cs + 1) st))") auto

definition preorderDepthFirstTraverse :: "'n \<Rightarrow> bool \<Rightarrow> 'n frame list" where
  "preorderDepthFirstTraverse node includeRoot = [Start node includeRoot]"

section \<open>Matching\<close>

text \<open>
  \<^verbatim>\<open>String.prototype.toUpperCase\<close> belongs to the JavaScript runtime, with the case
  mappings of Unicode, which may change the length of a string. It is the parameter
  \<open>toUpperCase\<close> of \<open>matchCompoundSelector\<close> and of everything that calls it.
\<close>

type_synonym upper_case = "string \<Rightarrow> string"

fun matchSubClassSelector :: "'n Operations \<Rightarrow> 'n \<Rightarrow> SubClassSelector \<Rightarrow> bool" where
  "matchSubClassSelector ops node (ID v) = (getID ops node = v)"
| "matchSubClassSelector ops node (Class v) = hasClass ops node v"
| "matchSubClassSelector ops node (Attribute name m) =
     (case m of
        None \<Rightarrow> getAttribute ops node name \<noteq> None
      | Some (matcher, expected) \<Rightarrow>
          (case getAttribute ops node name of
             None \<Rightarrow> False
           | Some v \<Rightarrow> matchers matcher v expected))"
| "matchSubClassSelector ops node (PseudoClass v) = True"
| "matchSubClassSelector ops node (PseudoElement v) = False"

text \<open>The loop \<^verbatim>\<open>for (const selector of list) if (!match(root, selector)) return false\<close>.\<close>

fun each_matches :: "'n Operations \<Rightarrow> 'n \<Rightarrow> SubClassSelector list \<Rightarrow> bool" where
  "each_matches ops root [] = True"
| "each_matches ops root (selector # rest) =
     (if \<not> matchSubClassSelector ops root selector then False
      else each_matches ops root rest)"

definition matchCompoundSelector :: "upper_case \<Rightarrow> 'n Operations \<Rightarrow> 'n \<Rightarrow> CompoundSelector \<Rightarrow> bool" where
  "matchCompoundSelector toUpperCase ops root c =
     (if (case type c of
            None \<Rightarrow> False
          | Some name \<Rightarrow> toUpperCase (getTagName ops root) \<noteq> toUpperCase name)
      then False
      else if (case subclasses c of None \<Rightarrow> False | Some l \<Rightarrow> \<not> each_matches ops root l)
      then False
      else if (case pseudoes c of None \<Rightarrow> False | Some l \<Rightarrow> \<not> each_matches ops root l)
      then False
      else True)"

text \<open>
  The \<^verbatim>\<open>for\<close> loop of \<^verbatim>\<open>matchComplexSelector\<close>, over the pairs of \<^verbatim>\<open>tail\<close> from the last
  to the first. \<open>Inr None\<close> is the early \<^verbatim>\<open>return false\<close>; \<open>Inr (Some candidates)\<close> is the
  candidate array when the loop is left.
\<close>

fun matchComplexSelector_loop ::
  "upper_case \<Rightarrow> 'n Operations \<Rightarrow> (CombinatorKind \<times> CompoundSelector) list \<Rightarrow> 'n list
     \<Rightarrow> 'n list option result" where
  "matchComplexSelector_loop toUpperCase ops [] candidates = Some (Inr (Some candidates))"
| "matchComplexSelector_loop toUpperCase ops ((combinator, selector) # pairs) candidates =
     (let filtered = filter (\<lambda>t. matchCompoundSelector toUpperCase ops t selector) candidates in
      if length filtered = 0 then Some (Inr None)
      else (case collectors ops combinator filtered of
              None \<Rightarrow> None
            | Some (Inl e) \<Rightarrow> Some (Inl e)
            | Some (Inr collected) \<Rightarrow> matchComplexSelector_loop toUpperCase ops pairs collected))"

definition matchComplexSelector :: "upper_case \<Rightarrow> 'n Operations \<Rightarrow> 'n \<Rightarrow> ComplexSelector \<Rightarrow> bool result" where
  "matchComplexSelector toUpperCase ops root sel =
     (case matchComplexSelector_loop toUpperCase ops (rev (tail sel)) [root] of
        None \<Rightarrow> None
      | Some (Inl e) \<Rightarrow> Some (Inl e)
      | Some (Inr None) \<Rightarrow> Some (Inr False)
      | Some (Inr (Some candidates)) \<Rightarrow>
          Some (Inr (length (filter (\<lambda>t. matchCompoundSelector toUpperCase ops t (head sel)) candidates) > 0)))"

fun matchSelectors :: "upper_case \<Rightarrow> 'n Operations \<Rightarrow> 'n \<Rightarrow> ComplexSelector list \<Rightarrow> bool result" where
  "matchSelectors toUpperCase ops root [] = Some (Inr False)"
| "matchSelectors toUpperCase ops root (selector # selectors) =
     (case matchComplexSelector toUpperCase ops root selector of
        None \<Rightarrow> None
      | Some (Inl e) \<Rightarrow> Some (Inl e)
      | Some (Inr b) \<Rightarrow> if b then Some (Inr True) else matchSelectors toUpperCase ops root selectors)"

section \<open>Queries\<close>

text \<open>
  \<^verbatim>\<open>S.parse\<close> belongs to the external parser; it is the parameter \<open>parse\<close>, which
  returns the selector list or raises (\<open>Inl\<close>). The two loops
  \<^verbatim>\<open>for (const node of preorderDepthFirstTraverse(root))\<close> pull one node at a time
  from the generator \<open>gen\<close>.
\<close>

type_synonym parser = "string \<Rightarrow> error + ComplexSelector list"

partial_function (option) querySelector_loop ::
  "upper_case \<Rightarrow> 'n Operations \<Rightarrow> ComplexSelector list \<Rightarrow> 'n frame list \<Rightarrow> 'n option result" where
  "querySelector_loop toUpperCase ops parsedSelectors gen =
     (case next_node ops gen of
        None \<Rightarrow> Some (Inr None)
      | Some (node, gen') \<Rightarrow>
          (case matchSelectors toUpperCase ops node parsedSelectors of
             None \<Rightarrow> None
           | Some (Inl e) \<Rightarrow> Some (Inl e)
           | Some (Inr b) \<Rightarrow>
               if b then Some (Inr (Some node))
               else querySelector_loop toUpperCase ops parsedSelectors gen'))"

declare querySelector_loop.simps [code]

definition querySelector :: "upper_case \<Rightarrow> 'n Operations \<Rightarrow> parser \<Rightarrow> 'n \<Rightarrow> string \<Rightarrow> 'n option result" where
  "querySelector toUpperCase ops parse root selectors =
     (case parse selectors of
        Inl e \<Rightarrow> Some (Inl e)
      | Inr parsedSelectors \<Rightarrow>
          querySelector_loop toUpperCase ops parsedSelectors (preorderDepthFirstTraverse root False))"

partial_function (option) querySelectorAll_loop ::
  "upper_case \<Rightarrow> 'n Operations \<Rightarrow> ComplexSelector list \<Rightarrow> 'n frame list \<Rightarrow> 'n list \<Rightarrow> 'n list result" where
  "querySelectorAll_loop toUpperCase ops parsedSelectors gen matchList =
     (case next_node ops gen of
        None \<Rightarrow> Some (Inr matchList)
      | Some (node, gen') \<Rightarrow>
          (case matchSelectors toUpperCase ops node parsedSelectors of
             None \<Rightarrow> None
           | Some (Inl e) \<Rightarrow> Some (Inl e)
           | Some (Inr b) \<Rightarrow>
               querySelectorAll_loop toUpperCase ops parsedSelectors gen'
                 (if b then matchList @ [node] else matchList)))"

declare querySelectorAll_loop.simps [code]

definition querySelectorAll :: "upper_case \<Rightarrow> 'n Operations \<Rightarrow> parser \<Rightarrow> 'n \<Rightarrow> string \<Rightarrow> 'n list result" where
  "querySelectorAll toUpperCase ops parse root selectors =
     (case parse selectors of
        Inl e \<Rightarrow> Some (Inl e)
      | Inr parsedSelectors \<Rightarrow>
          querySelectorAll_loop toUpperCase ops parsedSelectors
            (preorderDepthFirstTraverse root False) [])"

section \<open>Notions of the specification\<close>

subsection \<open>Trees and their preorder\<close>

text \<open>
  A finite tree of nodes. The adapter presents the tree \<open>t\<close> when \<^verbatim>\<open>getChildren\<close> of every
  node of \<open>t\<close> is the sequence of the roots of its subtrees. \<open>preorder\<close> lists a node before
  its descendants, and each subtree before the next sibling's subtree.
\<close>

datatype 'n tree = Node (root_node: 'n) (subtrees: "'n tree list")

fun preorder :: "'n tree \<Rightarrow> 'n list" where
  "preorder (Node n ts) = n # concat (map preorder ts)"

fun presents :: "'n Operations \<Rightarrow> 'n tree \<Rightarrow> bool" where
  "presents ops (Node n ts) \<longleftrightarrow>
     getChildren ops n = map root_node ts \<and> (\<forall>t \<in> set ts. presents ops t)"

text \<open>
  The whole sequence a generator yields, when it is finite: \<open>None\<close> is a generator that
  yields without end.
\<close>

partial_function (option) yielded :: "'n Operations \<Rightarrow> 'n frame list \<Rightarrow> 'n list option" where
  "yielded ops gen =
     (case next_node ops gen of
        None \<Rightarrow> Some []
      | Some (node, gen') \<Rightarrow> Option.bind (yielded ops gen') (\<lambda>nodes. Some (node # nodes)))"

declare yielded.simps [code]

subsection \<open>The relations of the adapter\<close>

text \<open>
  \<open>(x, y) \<in> parent_rel ops\<close>: \<open>y\<close> is the parent of \<open>x\<close>;
  \<open>(x, y) \<in> previous_rel ops\<close>: \<open>y\<close> is the sibling just before \<open>x\<close>;
  \<open>(x, y) \<in> child_rel ops\<close>: \<open>y\<close> is a child of \<open>x\<close>.
  The adapter is well-founded when no chain of parents, of previous siblings or of
  children goes on for ever.
\<close>

definition parent_rel :: "'n Operations \<Rightarrow> ('n \<times> 'n) set" where
  "parent_rel ops = {(x, y). getParent ops x = Some y}"

definition previous_rel :: "'n Operations \<Rightarrow> ('n \<times> 'n) set" where
  "previous_rel ops = {(x, y). getPreviouSibling ops x = Some y}"

definition child_rel :: "'n Operations \<Rightarrow> ('n \<times> 'n) set" where
  "child_rel ops = {(x, y). y \<in> set (getChildren ops x)}"

definition well_founded :: "'n Operations \<Rightarrow> bool" where
  "well_founded ops \<longleftrightarrow>
     wf ((parent_rel ops)\<inverse>) \<and> wf ((previous_rel ops)\<inverse>) \<and> wf ((child_rel ops)\<inverse>)"

subsection \<open>Collectors and complex selectors on sets\<close>

text \<open>
  The state of a collector is consistent when the array has no node twice and the
  \<^verbatim>\<open>WeakSet\<close> holds the nodes of the array.
\<close>

definition consistent :: "'n collected \<Rightarrow> bool" where
  "consistent st \<longleftrightarrow> distinct (fst st) \<and> snd st = set (fst st)"

definition step_rel :: "('n \<Rightarrow> 'n option) \<Rightarrow> ('n \<times> 'n) set" where
  "step_rel step = {(x, y). step x = Some y}"

text \<open>
  What the specification says a collector gives for the candidate set \<open>S\<close>: the strict
  ancestors, the parents, the siblings just before, or all the siblings before the
  members of \<open>S\<close>; the column combinator raises.
\<close>

fun collector_set :: "'n Operations \<Rightarrow> CombinatorKind \<Rightarrow> 'n set \<Rightarrow> error + 'n set" where
  "collector_set ops Descendant S = Inr ((parent_rel ops)\<^sup>+ `` S)"
| "collector_set ops Child S = Inr (parent_rel ops `` S)"
| "collector_set ops NextSibling S = Inr (previous_rel ops `` S)"
| "collector_set ops SubsequentSibling S = Inr ((previous_rel ops)\<^sup>+ `` S)"
| "collector_set ops Column S = Inl ColumnNotSupported"

text \<open>
  The right-to-left evaluation of the specification, on candidate sets. The pairs are
  taken in the order of the list, so the caller gives the tail reversed.
\<close>

fun evaluate_pairs ::
  "upper_case \<Rightarrow> 'n Operations \<Rightarrow> (CombinatorKind \<times> CompoundSelector) list \<Rightarrow> CompoundSelector \<Rightarrow> 'n set
     \<Rightarrow> error + bool" where
  "evaluate_pairs toUpperCase ops [] first S = Inr ({t \<in> S. matchCompoundSelector toUpperCase ops t first} \<noteq> {})"
| "evaluate_pairs toUpperCase ops ((combinator, selector) # pairs) first S =
     (if {t \<in> S. matchCompoundSelector toUpperCase ops t selector} = {} then Inr False
      else (case collector_set ops combinator {t \<in> S. matchCompoundSelector toUpperCase ops t selector} of
              Inl e \<Rightarrow> Inl e
            | Inr S' \<Rightarrow> evaluate_pairs toUpperCase ops pairs first S'))"

definition right_to_left :: "upper_case \<Rightarrow> 'n Operations \<Rightarrow> 'n \<Rightarrow> ComplexSelector \<Rightarrow> error + bool" where
  "right_to_left toUpperCase ops node sel = evaluate_pairs toUpperCase ops (rev (tail sel)) (head sel) {node}"

text \<open>What \<^verbatim>\<open>matchComplexSelector\<close> makes of the outcome of its loop.\<close>

definition finish ::
  "upper_case \<Rightarrow> 'n Operations \<Rightarrow> CompoundSelector \<Rightarrow> error + 'n list option \<Rightarrow> error + bool" where
  "finish toUpperCase ops first r =
     (case r of
        Inl e \<Rightarrow> Inl e
      | Inr None \<Rightarrow> Inr False
      | Inr (Some candidates) \<Rightarrow>
          Inr (length (filter (\<lambda>t. matchCompoundSelector toUpperCase ops t first) candidates) > 0))"

subsection \<open>The query loops on a finite sequence of nodes\<close>

text \<open>
  The loops of \<^verbatim>\<open>querySelectorAll\<close> and of \<^verbatim>\<open>querySelector\<close> when the nodes to visit are
  given as a list; \<open>matches\<close> is the test of one node, which may raise or not return.
\<close>

fun collect_matching :: "('n \<Rightarrow> bool result) \<Rightarrow> 'n list \<Rightarrow> 'n list \<Rightarrow> 'n list result" where
  "collect_matching matches [] matchList = Some (Inr matchList)"
| "collect_matching matches (node # nodes) matchList =
     (case matches node of
        None \<Rightarrow> None
      | Some (Inl e) \<Rightarrow> Some (Inl e)
      | Some (Inr b) \<Rightarrow>
          collect_matching matches nodes (if b then matchList @ [node] else matchList))"

fun first_matching :: "('n \<Rightarrow> bool result) \<Rightarrow> 'n list \<Rightarrow> 'n option result" where
  "first_matching matches [] = Some (Inr None)"
| "first_matching matches (node # nodes) =
     (case matches node of
        None \<Rightarrow> None
      | Some (Inl e) \<Rightarrow> Some (Inl e)
      | Some (Inr b) \<Rightarrow> if b then Some (Inr (Some node)) else first_matching matches nodes)"

subsection \<open>Subclass selectors\<close>

text \<open>
  What the specification says of one subclass or pseudo selector: an ID selector compares
  with the adapter's id, a class selector asks the adapter, an attribute selector without
  operator asks whether the attribute exists, one with an operator asks that the attribute
  exists and that the operator's matcher holds; a pseudo-class holds and a pseudo-element
  does not.
\<close>

fun selector_succeeds :: "'n Operations \<Rightarrow> 'n \<Rightarrow> SubClassSelector \<Rightarrow> bool" where
  "selector_succeeds ops node (ID v) = (getID ops node = v)"
| "selector_succeeds ops node (Class v) = hasClass ops node v"
| "selector_succeeds ops node (Attribute name None) =
     (\<exists>v. getAttribute ops node name = Some v)"
| "selector_succeeds ops node (Attribute name (Some (operator, expected))) =
     (\<exists>v. getAttribute ops node name = Some v \<and> matchers operator v expected)"
| "selector_succeeds ops node (PseudoClass v) = True"
| "selector_succeeds ops node (PseudoElement v) = False"

definition selectors_of :: "SubClassSelector list option \<Rightarrow> SubClassSelector list" where
  "selectors_of l = (case l of None \<Rightarrow> [] | Some xs \<Rightarrow> xs)"

subsection \<open>Case-insensitive equality of ASCII strings\<close>

text \<open>
  Two characters are the same letter when they are equal or one is the small and the other
  the capital form of one of the 26 letters; two strings are the same up to case when they
  have the same length and the same letter at every position.
\<close>

definition small_letters :: string where
  "small_letters = ''abcdefghijklmnopqrstuvwxyz''"

definition capital_letters :: string where
  "capital_letters = ''ABCDEFGHIJKLMNOPQRSTUVWXYZ''"

definition same_letter :: "char \<Rightarrow> char \<Rightarrow> bool" where
  "same_letter x y \<longleftrightarrow>
     x = y \<or> (x, y) \<in> set (zip small_letters capital_letters) \<or>
     (y, x) \<in> set (zip small_letters capital_letters)"

definition same_ignoring_case :: "string \<Rightarrow> string \<Rightarrow> bool" where
  "same_ignoring_case a b \<longleftrightarrow> list_all2 same_letter a b"

text \<open>
  What \<^verbatim>\<open>toUpperCase\<close> does on a string of ASCII characters: it replaces each small
  letter by its capital and keeps every other character. \<open>upper_on_ascii\<close> says that an
  upper-casing function does this on the ASCII strings; on the other strings it is free.
\<close>

definition ascii_toUpperCaseChar :: "char \<Rightarrow> char" where
  "ascii_toUpperCaseChar c =
     (case map_of (zip small_letters capital_letters) c of None \<Rightarrow> c | Some u \<Rightarrow> u)"

definition ascii_toUpperCase :: upper_case where
  "ascii_toUpperCase s = map ascii_toUpperCaseChar s"

definition is_ascii :: "string \<Rightarrow> bool" where
  "is_ascii s \<longleftrightarrow> (\<forall>c \<in> set s. (of_char c :: nat) < 128)"

definition upper_on_ascii :: "upper_case \<Rightarrow> bool" where
  "upper_on_ascii toUpperCase \<longleftrightarrow> (\<forall>s. is_ascii s \<longrightarrow> toUpperCase s = ascii_toUpperCase s)"

subsection \<open>Whitespace-separated words\<close>

text \<open>
  The words of a value that is read as a whitespace-separated list: the pieces between the
  maximal runs of whitespace, where whitespace is space, tab, line feed, form feed and
  carriage return. The first argument is the piece being read.
\<close>

definition is_whitespace :: "char \<Rightarrow> bool" where
  "is_whitespace c \<longleftrightarrow> c \<in> {CHR '' '', CHR 0x09, CHR 0x0A, CHR 0x0C, CHR 0x0D}"

function word_list :: "string \<Rightarrow> string \<Rightarrow> string list" where
  "word_list cur [] = [cur]"
| "word_list cur (c # cs) =
     (if is_whitespace c then cur # word_list [] (dropWhile is_whitespace cs)
      else word_list (cur @ [c]) cs)"
  by pat_completeness auto
termination
  by (relation "measure (\<lambda>(cur, cs). length cs)")
     (auto simp: less_Suc_eq_le length_dropWhile_le)

subsection \<open>Agreement of two adapters\<close>

text \<open>
  Two adapters agree when they have the same \<^verbatim>\<open>getTagName\<close>, \<^verbatim>\<open>getID\<close>, \<^verbatim>\<open>hasClass\<close>,
  \<^verbatim>\<open>getParent\<close>, \<^verbatim>\<open>getChildren\<close>, \<^verbatim>\<open>getAttribute\<close> and \<^verbatim>\<open>getPreviouSibling\<close>; their
  \<^verbatim>\<open>getContent\<close> and \<^verbatim>\<open>getNextSibling\<close> are free.
\<close>

definition agree :: "'n Operations \<Rightarrow> 'n Operations \<Rightarrow> bool" where
  "agree a b \<longleftrightarrow>
     getTagName a = getTagName b \<and> getID a = getID b \<and> hasClass a = hasClass b \<and>
     getParent a = getParent b \<and> getChildren a = getChildren b \<and>
     getAttribute a = getAttribute b \<and> getPreviouSibling a = getPreviouSibling b"

section \<open>A document to run the evaluator on\<close>

text \<open>
  The elements of the document of \<^verbatim>\<open>test/index.js\<close>: \<^verbatim>\<open>body\<close>, in it \<^verbatim>\<open>div.container\<close>, in
  it \<^verbatim>\<open>div.gallery\<close>, and in it six \<^verbatim>\<open>article\<close> elements, of which the third and the
  fourth have the class \<^verbatim>\<open>bad\<close>. In addition the first article has the attribute
  \<^verbatim>\<open>data-x="foo bar"\<close> and the second has \<^verbatim>\<open>data-x\<close> with a tab between the two words.
\<close>

datatype element =
  Body | Container | Gallery
| Article1 | Article2 | Article3 | Article4 | Article5 | Article6

fun doc_tag :: "element \<Rightarrow> string" where
  "doc_tag Body = ''BODY''"
| "doc_tag Container = ''DIV''"
| "doc_tag Gallery = ''DIV''"
| "doc_tag e = ''ARTICLE''"

definition doc_class :: "element \<Rightarrow> string \<Rightarrow> bool" where
  "doc_class e c =
     (e = Container \<and> c = ''container'' \<or> e = Gallery \<and> c = ''gallery'' \<or>
      (e = Article3 \<or> e = Article4) \<and> c = ''bad'')"

fun doc_parent :: "element \<Rightarrow> element option" where
  "doc_parent Body = None"
| "doc_parent Container = Some Body"
| "doc_parent Gallery = Some Container"
| "doc_parent e = Some Gallery"

fun doc_children :: "element \<Rightarrow> element list" where
  "doc_children Body = [Container]"
| "doc_children Container = [Gallery]"
| "doc_children Gallery = [Article1, Article2, Article3, Article4, Article5, Article6]"
| "doc_children e = []"

fun doc_attribute :: "element \<Rightarrow> string \<Rightarrow> string option" where
  "doc_attribute Article1 name = (if name = ''data-x'' then Some ''foo bar'' else None)"
| "doc_attribute Article2 name =
     (if name = ''data-x'' then Some (''foo'' @ [CHR 0x09] @ ''bar'') else None)"
| "doc_attribute e name = None"

fun doc_previous :: "element \<Rightarrow> element option" where
  "doc_previous Article2 = Some Article1"
| "doc_previous Article3 = Some Article2"
| "doc_previous Article4 = Some Article3"
| "doc_previous Article5 = Some Article4"
| "doc_previous Article6 = Some Article5"
| "doc_previous e = None"

fun doc_next :: "element \<Rightarrow> element option" where
  "doc_next Article1 = Some Article2"
| "doc_next Article2 = Some Article3"
| "doc_next Article3 = Some Article4"
| "doc_next Article4 = Some Article5"
| "doc_next Article5 = Some Article6"
| "doc_next e = None"

definition doc :: "element Operations" where
  "doc = \<lparr> getTagName = doc_tag, getContent = (\<lambda>e. ''Item''), getID = (\<lambda>e. []),
           hasClass = doc_class, getParent = doc_parent, getChildren = doc_children,
           getAttribute = doc_attribute, getPreviouSibling = doc_previous,
           getNextSibling = doc_next \<rparr>"

definition doc_tree :: "element tree" where
  "doc_tree =
     Node Body [Node Container [Node Gallery
       [Node Article1 [], Node Article2 [], Node Article3 [], Node Article4 [],
        Node Article5 [], Node Article6 []]]]"

text \<open>The position of an element in document order.\<close>

fun doc_order :: "element \<Rightarrow> nat" where
  "doc_order Body = 0"
| "doc_order Container = 1"
| "doc_order Gallery = 2"
| "doc_order Article1 = 3"
| "doc_order Article2 = 4"
| "doc_order Article3 = 5"
| "doc_order Article4 = 6"
| "doc_order Article5 = 7"
| "doc_order Article6 = 8"

text \<open>
  An upper-casing function that is \<^verbatim>\<open>toUpperCase\<close> on the ASCII strings and on the string
  of the one character \<open>0xDF\<close> (the sharp s of Latin-1), whose upper case is \<^verbatim>\<open>SS\<close>.
\<close>

definition sharp_s_upper :: upper_case where
  "sharp_s_upper s = (if s = [CHR 0xDF] then ''SS'' else ascii_toUpperCase s)"

text \<open>Compound selectors with one constraint, and complex selectors without combinator.\<close>

definition by_type :: "string \<Rightarrow> CompoundSelector" where
  "by_type name = \<lparr> type = Some name, subclasses = None, pseudoes = None \<rparr>"

definition by_class :: "string \<Rightarrow> CompoundSelector" where
  "by_class name = \<lparr> type = None, subclasses = Some [Class name], pseudoes = None \<rparr>"

definition single :: "CompoundSelector \<Rightarrow> ComplexSelector" where
  "single c = \<lparr> head = c, tail = [] \<rparr>"

text \<open>
  The syntax trees of the selector strings used below, as a stand-in for the external
  parser: every other string is a syntax error.
\<close>

definition doc_parse :: parser where
  "doc_parse s =
     (if s = ''.container > .gallery > .bad'' then
        Inr [\<lparr> head = by_class ''container'',
               tail = [(Child, by_class ''gallery''), (Child, by_class ''bad'')] \<rparr>]
      else if s = ''article'' then Inr [single (by_type ''article'')]
      else if s = ''.bad'' then Inr [single (by_class ''bad'')]
      else if s = ''.gallery'' then Inr [single (by_class ''gallery'')]
      else if s = ''.bad, .gallery'' then
        Inr [single (by_class ''bad''), single (by_class ''gallery'')]
      else if s = ''x || article'' then
        Inr [\<lparr> head = by_type ''x'', tail = [(Column, by_type ''article'')] \<rparr>]
      else if s = ''article, x || article'' then
        Inr [single (by_type ''article''),
             \<lparr> head = by_type ''x'', tail = [(Column, by_type ''article'')] \<rparr>]
      else if s = ''x || article, article'' then
        Inr [\<lparr> head = by_type ''x'', tail = [(Column, by_type ''article'')] \<rparr>,
             single (by_type ''article'')]
      else if s = ''div, x || article'' then
        Inr [single (by_type ''div''),
             \<lparr> head = by_type ''x'', tail = [(Column, by_type ''article'')] \<rparr>]
      else Inl SyntaxError)"

section \<open>Facts about the document\<close>

lemmas doc_defs = doc_def doc_class_def

lemmas selector_defs = by_type_def by_class_def single_def

lemmas match_defs =
  matchComplexSelector_def matchCompoundSelector_def collect_chain.simps collect_one_def
  push_unique_def ascii_toUpperCase_def ascii_toUpperCaseChar_def small_letters_def
  capital_letters_def

lemma wf_doc_parent: "wf ((parent_rel doc)\<inverse>)"
proof (rule wf_subset [OF wf_measure [of doc_order]], rule subsetI)
  fix p assume "p \<in> (parent_rel doc)\<inverse>"
  then have "doc_parent (snd p) = Some (fst p)"
    by (auto simp: parent_rel_def doc_def)
  then show "p \<in> measure doc_order"
    by (cases p, cases "snd p") auto
qed

lemma wf_doc_previous: "wf ((previous_rel doc)\<inverse>)"
proof (rule wf_subset [OF wf_measure [of doc_order]], rule subsetI)
  fix p assume "p \<in> (previous_rel doc)\<inverse>"
  then have "doc_previous (snd p) = Some (fst p)"
    by (auto simp: previous_rel_def doc_def)
  then show "p \<in> measure doc_order"
    by (cases p, cases "snd p") auto
qed

lemma collectors_doc:
  "collectors doc Descendant [Article3, Article4] = Some (Inr [Gallery, Container, Body])"
  "collectors doc Child [Article3, Article4] = Some (Inr [Gallery])"
  "collectors doc NextSibling [Article3, Article4] = Some (Inr [Article2, Article3])"
  "collectors doc SubsequentSibling [Article3, Article4] = Some (Inr [Article2, Article1, Article3])"
  by (simp_all add: collect_chain.simps collect_one_def push_unique_def doc_defs)

lemma wf_doc_children: "wf ((child_rel doc)\<inverse>)"
proof (rule wf_subset [OF wf_measure [of "\<lambda>e. 8 - doc_order e"]], rule subsetI)
  fix p assume "p \<in> (child_rel doc)\<inverse>"
  then have "fst p \<in> set (doc_children (snd p))"
    by (auto simp: child_rel_def doc_def)
  then show "p \<in> measure (\<lambda>e. 8 - doc_order e)"
    by (cases p, cases "snd p") auto
qed

lemma well_founded_doc: "well_founded doc"
  by (simp add: well_founded_def wf_doc_parent wf_doc_previous wf_doc_children)

lemmas query_defs =
  querySelector_def querySelectorAll_def querySelector_loop.simps querySelectorAll_loop.simps
  preorderDepthFirstTraverse_def doc_parse_def

lemma doc_presented: "presents doc doc_tree"
  by (simp add: doc_tree_def doc_defs)

lemma doc_preorder: "tl (preorder doc_tree) = [Container, Gallery, Article1, Article2, Article3, Article4, Article5, Article6]"
  by (simp add: doc_tree_def)

section \<open>The attribute matchers\<close>

lemma startsWith_prefix: "startsWith v e \<longleftrightarrow> prefix e v"
  by (induction v e rule: startsWith.induct) auto

lemma endsWith_suffix: "endsWith v e \<longleftrightarrow> suffix e v"
  by (simp add: endsWith_def startsWith_prefix suffix_to_prefix)

lemma includes_str_sublist: "includes_str v e \<longleftrightarrow> sublist e v"
  by (induction v) (auto simp: startsWith_prefix sublist_Cons_right)

text \<open>
  Five rows of the table hold as they are written: equality, dash match, prefix, suffix
  and substring; none of them treats the empty expected value on its own.
\<close>

lemma matchers_table:
  "matchers Equals v e \<longleftrightarrow> v = e"
  "matchers DashMatch v e \<longleftrightarrow> v = e \<or> (\<exists>r. v = e @ ''-'' @ r)"
  "matchers PrefixMatch v e \<longleftrightarrow> (\<exists>r. v = e @ r)"
  "matchers SuffixMatch v e \<longleftrightarrow> (\<exists>l. v = l @ e)"
  "matchers SubstringMatch v e \<longleftrightarrow> (\<exists>l r. v = l @ e @ r)"
  by (auto simp: startsWith_prefix endsWith_suffix includes_str_sublist
        prefix_def suffix_def sublist_def)

lemma matchers_empty_expected:
  "matchers Equals v [] \<longleftrightarrow> v = []"
  "matchers Includes v [] \<longleftrightarrow> [] \<in> set (split_spaces [] v)"
  "matchers DashMatch v [] \<longleftrightarrow> v = [] \<or> (\<exists>r. v = ''-'' @ r)"
  "matchers PrefixMatch v []"
  "matchers SuffixMatch v []"
  "matchers SubstringMatch v []"
  by (auto simp: startsWith_prefix endsWith_suffix includes_str_sublist prefix_def)

lemma matchers_examples:
  "matchers Includes ''foo bar'' ''foo''"
  "\<not> matchers Includes ''foo bar'' ''foo bar''"
  "matchers PrefixMatch ''foo bar'' ''fo''"
  "matchers SuffixMatch ''foo bar'' ''ar''"
  "matchers SubstringMatch ''foo bar'' ''o b''"
  "\<not> matchers Equals ''foo bar'' ''foo''"
  by (simp_all add: endsWith_def)

text \<open>
  The row of \<^verbatim>\<open>~=\<close>: \<^verbatim>\<open>split(/ +/)\<close> cuts the value at spaces only. When the value has no
  whitespace other than spaces, its pieces are the whitespace-separated words.
\<close>

lemma split_spaces_word_list:
  "\<forall>c \<in> set v. is_whitespace c \<longrightarrow> c = CHR '' '' \<Longrightarrow> split_spaces cur v = word_list cur v"
proof (induction cur v rule: split_spaces.induct)
  case (1 cur)
  then show ?case by simp
next
  case (2 cur c cs)
  have same: "dropWhile is_whitespace cs = dropWhile (\<lambda>d. d = CHR '' '') cs"
    using 2(3) by (intro dropWhile_cong) (auto simp: is_whitespace_def)
  have rest: "\<forall>c \<in> set (dropWhile (\<lambda>d. d = CHR '' '') cs). is_whitespace c \<longrightarrow> c = CHR '' ''"
    using 2(3) by (auto dest: set_dropWhileD)
  show ?case
  proof (cases "c = CHR '' ''")
    case True
    then show ?thesis using 2(1) [OF True rest] same by (simp add: is_whitespace_def)
  next
    case False
    then have "\<not> is_whitespace c" using 2(3) by auto
    then show ?thesis using False 2(2) [OF False] 2(3) by simp
  qed
qed

lemma matchers_Includes_spaces:
  "\<forall>c \<in> set v. is_whitespace c \<longrightarrow> c = CHR '' '' \<Longrightarrow>
   matchers Includes v e \<longleftrightarrow> e \<in> set (word_list [] v)"
  by (simp add: split_spaces_word_list)

text \<open>
  C6: the matcher of \<^verbatim>\<open>~=\<close> does not read the value as a whitespace-separated list: the
  value \<^verbatim>\<open>foo\<close>, tab, \<^verbatim>\<open>bar\<close> has the word \<^verbatim>\<open>foo\<close>, and \<^verbatim>\<open>matchers['~=']\<close> returns false
  for it, as does the selector \<^verbatim>\<open>[data-x~="foo"]\<close> on the node that carries this value.
\<close>

theorem matchers_Includes_tab:
  "''foo'' \<in> set (word_list [] (''foo'' @ [CHR 0x09] @ ''bar'')) \<and>
   \<not> matchers Includes (''foo'' @ [CHR 0x09] @ ''bar'') ''foo'' \<and>
   getAttribute doc Article2 ''data-x'' = Some (''foo'' @ [CHR 0x09] @ ''bar'') \<and>
   \<not> matchSubClassSelector doc Article2 (Attribute ''data-x'' (Some (Includes, ''foo'')))"
  by (simp add: is_whitespace_def doc_defs)

section \<open>The compound selector matcher\<close>

lemma matchSubClassSelector_succeeds:
  "matchSubClassSelector ops node s = selector_succeeds ops node s"
  by (cases "(ops, node, s)" rule: selector_succeeds.cases)
     (auto split: option.splits)

lemma each_matches_all:
  "each_matches ops node l \<longleftrightarrow> (\<forall>s \<in> set l. matchSubClassSelector ops node s)"
  by (induction l) auto

lemma matchCompoundSelector_conjunction:
  "matchCompoundSelector toUpperCase ops node c \<longleftrightarrow>
     (\<forall>name. type c = Some name \<longrightarrow>
        toUpperCase (getTagName ops node) = toUpperCase name) \<and>
     (\<forall>s \<in> set (selectors_of (subclasses c)). selector_succeeds ops node s) \<and>
     (\<forall>s \<in> set (selectors_of (pseudoes c)). selector_succeeds ops node s)"
  by (auto simp: matchCompoundSelector_def selectors_of_def each_matches_all
        matchSubClassSelector_succeeds split: option.splits)

text \<open>
  Upper-casing identifies exactly the ASCII strings that are the same up to case. A small
  letter has one capital and a capital has one small letter, and no character is both.
\<close>

lemma letters_distinct:
  "distinct small_letters" "distinct capital_letters"
  "set small_letters \<inter> set capital_letters = {}"
  "length small_letters = length capital_letters"
  by (simp_all add: small_letters_def capital_letters_def)

lemma zip_right_unique:
  "length xs = length ys \<Longrightarrow> distinct ys \<Longrightarrow>
   (a, c) \<in> set (zip xs ys) \<Longrightarrow> (b, c) \<in> set (zip xs ys) \<Longrightarrow> a = b"
proof (induction xs ys rule: list_induct2)
  case Nil
  then show ?case by simp
next
  case (Cons x xs y ys)
  then show ?case
    by (auto dest: set_zip_rightD)
qed

lemma capital_of_small:
  "map_of (zip small_letters capital_letters) x = Some u \<longleftrightarrow>
     (x, u) \<in> set (zip small_letters capital_letters)"
  using letters_distinct by (intro map_of_eq_Some_iff) simp

lemma capital_not_small:
  assumes "(x, u) \<in> set (zip small_letters capital_letters)"
  shows "map_of (zip small_letters capital_letters) u = None"
proof -
  have "u \<in> set capital_letters"
    using assms by (rule set_zip_rightD)
  then have "u \<notin> set small_letters"
    using letters_distinct(3) by auto
  moreover have "fst ` set (zip small_letters capital_letters) = set small_letters"
    using letters_distinct(4) by (metis map_fst_zip set_map)
  ultimately show ?thesis
    by (simp add: map_of_eq_None_iff)
qed

lemma ascii_toUpperCaseChar_same_letter:
  "ascii_toUpperCaseChar x = ascii_toUpperCaseChar y \<longleftrightarrow> same_letter x y"
proof
  assume eq: "ascii_toUpperCaseChar x = ascii_toUpperCaseChar y"
  show "same_letter x y"
  proof (cases "map_of (zip small_letters capital_letters) x")
    case None
    then show ?thesis
      using eq
      by (cases "map_of (zip small_letters capital_letters) y")
         (auto simp: ascii_toUpperCaseChar_def same_letter_def capital_of_small)
  next
    case (Some u)
    show ?thesis
    proof (cases "map_of (zip small_letters capital_letters) y")
      case None
      then show ?thesis
        using eq Some by (auto simp: ascii_toUpperCaseChar_def same_letter_def capital_of_small)
    next
      case inner: (Some v)
      have "u = v"
        using eq Some inner by (simp add: ascii_toUpperCaseChar_def)
      then have "(x, u) \<in> set (zip small_letters capital_letters)"
        and "(y, u) \<in> set (zip small_letters capital_letters)"
        using Some inner by (simp_all add: capital_of_small)
      then have "x = y"
        using zip_right_unique [OF letters_distinct(4) letters_distinct(2)] by blast
      then show ?thesis
        by (simp add: same_letter_def)
    qed
  qed
next
  assume "same_letter x y"
  then consider "x = y" | "(x, y) \<in> set (zip small_letters capital_letters)"
    | "(y, x) \<in> set (zip small_letters capital_letters)"
    by (auto simp: same_letter_def)
  then show "ascii_toUpperCaseChar x = ascii_toUpperCaseChar y"
  proof cases
    case 1
    then show ?thesis by simp
  next
    case 2
    then show ?thesis
      using capital_not_small [OF 2]
      by (simp add: ascii_toUpperCaseChar_def capital_of_small [symmetric])
  next
    case 3
    then show ?thesis
      using capital_not_small [OF 3]
      by (simp add: ascii_toUpperCaseChar_def capital_of_small [symmetric])
  qed
qed

lemma ascii_toUpperCase_same_ignoring_case:
  "ascii_toUpperCase a = ascii_toUpperCase b \<longleftrightarrow> same_ignoring_case a b"
proof -
  have "ascii_toUpperCase a = ascii_toUpperCase b \<longleftrightarrow>
      list_all2 (=) (map ascii_toUpperCaseChar a) (map ascii_toUpperCaseChar b)"
    by (simp add: ascii_toUpperCase_def list.rel_eq)
  also have "\<dots> \<longleftrightarrow> list_all2 (\<lambda>x y. ascii_toUpperCaseChar x = ascii_toUpperCaseChar y) a b"
    by (simp add: list_all2_map1 list_all2_map2)
  finally show ?thesis
    by (simp add: same_ignoring_case_def ascii_toUpperCaseChar_same_letter [abs_def])
qed

lemma upper_on_ascii_same_ignoring_case:
  assumes "upper_on_ascii toUpperCase" and "is_ascii a" and "is_ascii b"
  shows "toUpperCase a = toUpperCase b \<longleftrightarrow> same_ignoring_case a b"
  using assms by (simp add: upper_on_ascii_def ascii_toUpperCase_same_ignoring_case)

text \<open>
  C5: \<^verbatim>\<open>matchCompoundSelector\<close> returns true exactly when the type selector, if there is
  one, has the same upper case as the node's tag name, and every subclass selector and
  every pseudo selector succeeds in the sense of \<open>selector_succeeds\<close>: ID by equality with
  the adapter's id, class by the adapter's membership test, attribute by existence (and by
  the operator's matcher when there is one), pseudo-class always, pseudo-element never.
  Having the same upper case is case-insensitive equality: for an upper-casing that is
  \<^verbatim>\<open>toUpperCase\<close> on the ASCII strings, two ASCII strings have the same upper case exactly
  when they have the same length and, at every position, the same letter in either case or
  the same character.
\<close>

theorem matchCompoundSelector_iff:
  "(matchCompoundSelector toUpperCase ops node c \<longleftrightarrow>
      (\<forall>name. type c = Some name \<longrightarrow>
         toUpperCase (getTagName ops node) = toUpperCase name) \<and>
      (\<forall>s \<in> set (selectors_of (subclasses c)). selector_succeeds ops node s) \<and>
      (\<forall>s \<in> set (selectors_of (pseudoes c)). selector_succeeds ops node s)) \<and>
   (upper_on_ascii toUpperCase \<longrightarrow>
      (\<forall>a b. is_ascii a \<and> is_ascii b \<longrightarrow>
         (toUpperCase a = toUpperCase b \<longleftrightarrow> same_ignoring_case a b)))"
  using matchCompoundSelector_conjunction [of toUpperCase ops node c]
    upper_on_ascii_same_ignoring_case [of toUpperCase]
  by blast

lemma upper_on_ascii_ascii: "upper_on_ascii ascii_toUpperCase"
  by (simp add: upper_on_ascii_def)

lemma is_ascii_examples:
  "is_ascii ''ARTICLE''" "is_ascii ''Article''" "is_ascii ''Articla''" "is_ascii ''DIV''"
  by (simp_all add: is_ascii_def)

text \<open>
  On the document: the third article has the tag name \<^verbatim>\<open>ARTICLE\<close> and the class \<^verbatim>\<open>bad\<close>. It
  matches \<^verbatim>\<open>Article.bad:hover\<close>, and each constraint holds on its own; it does not match
  the type \<^verbatim>\<open>Articla\<close>, which has the same length and another last letter, nor the type
  \<^verbatim>\<open>div\<close>.
\<close>

theorem matchCompoundSelector_iff_witness:
  "matchCompoundSelector ascii_toUpperCase doc Article3
     \<lparr> type = Some ''Article'', subclasses = Some [Class ''bad''],
       pseudoes = Some [PseudoClass ''hover''] \<rparr> \<and>
   getTagName doc Article3 = ''ARTICLE'' \<and>
   ascii_toUpperCase ''ARTICLE'' = ascii_toUpperCase ''Article'' \<and>
   same_ignoring_case ''ARTICLE'' ''Article'' \<and>
   selector_succeeds doc Article3 (Class ''bad'') \<and>
   selector_succeeds doc Article3 (PseudoClass ''hover'') \<and>
   upper_on_ascii ascii_toUpperCase \<and>
   \<not> same_ignoring_case ''ARTICLE'' ''Articla'' \<and>
   \<not> matchCompoundSelector ascii_toUpperCase doc Article3
     \<lparr> type = Some ''Articla'', subclasses = None, pseudoes = None \<rparr> \<and>
   \<not> matchCompoundSelector ascii_toUpperCase doc Article3
     \<lparr> type = Some ''div'', subclasses = None, pseudoes = None \<rparr>"
proof -
  have upper: "ascii_toUpperCase ''ARTICLE'' = ascii_toUpperCase ''Article''"
    "ascii_toUpperCase ''ARTICLE'' \<noteq> ascii_toUpperCase ''Articla''"
    "ascii_toUpperCase ''ARTICLE'' \<noteq> ascii_toUpperCase ''div''"
    by (simp_all add: ascii_toUpperCase_def ascii_toUpperCaseChar_def small_letters_def
          capital_letters_def)
  have tag: "getTagName doc Article3 = ''ARTICLE''"
    by (simp add: doc_def)
  have parts: "selector_succeeds doc Article3 (Class ''bad'')"
    "selector_succeeds doc Article3 (PseudoClass ''hover'')"
    by (simp_all add: doc_defs)
  note iff = matchCompoundSelector_iff [where toUpperCase = ascii_toUpperCase and ops = doc
      and node = Article3]
  have "matchCompoundSelector ascii_toUpperCase doc Article3
     \<lparr> type = Some ''Article'', subclasses = Some [Class ''bad''],
       pseudoes = Some [PseudoClass ''hover''] \<rparr>"
    using iff [of "\<lparr> type = Some ''Article'', subclasses = Some [Class ''bad''],
       pseudoes = Some [PseudoClass ''hover''] \<rparr>"] upper tag parts
    by (simp add: selectors_of_def)
  moreover have "\<not> matchCompoundSelector ascii_toUpperCase doc Article3
     \<lparr> type = Some ''Articla'', subclasses = None, pseudoes = None \<rparr>"
    using iff [of "\<lparr> type = Some ''Articla'', subclasses = None, pseudoes = None \<rparr>"] upper tag
    by (simp add: selectors_of_def)
  moreover have "\<not> matchCompoundSelector ascii_toUpperCase doc Article3
     \<lparr> type = Some ''div'', subclasses = None, pseudoes = None \<rparr>"
    using iff [of "\<lparr> type = Some ''div'', subclasses = None, pseudoes = None \<rparr>"] upper tag
    by (simp add: selectors_of_def)
  moreover have "same_ignoring_case ''ARTICLE'' ''Article''"
    "\<not> same_ignoring_case ''ARTICLE'' ''Articla''"
    using iff [of undefined] upper upper_on_ascii_ascii is_ascii_examples
    by blast+
  ultimately show ?thesis
    using upper tag parts upper_on_ascii_ascii by simp
qed

text \<open>A pseudo-element makes the same selector fail, and so does an absent attribute.\<close>

lemma matchCompoundSelector_pseudo_element:
  "\<not> matchCompoundSelector ascii_toUpperCase doc Article3
     \<lparr> type = Some ''article'', subclasses = Some [Class ''bad''],
       pseudoes = Some [PseudoElement ''before''] \<rparr>"
  by (simp add: match_defs doc_defs)

lemma matchCompoundSelector_absent_attribute:
  "\<not> matchCompoundSelector ascii_toUpperCase doc Article3
     \<lparr> type = None, subclasses = Some [Class ''bad'', Attribute ''data-x'' None],
       pseudoes = None \<rparr>"
  by (simp add: matchCompoundSelector_def doc_defs)

lemma matchCompoundSelector_universal:
  "matchCompoundSelector toUpperCase ops node \<lparr> type = None, subclasses = None, pseudoes = None \<rparr>"
  by (simp add: matchCompoundSelector_def)

text \<open>
  An upper-casing that changes the length of a string: a node whose tag name is the sharp
  s matches the type \<^verbatim>\<open>SS\<close> and the type \<^verbatim>\<open>ss\<close>.
\<close>

lemma upper_on_ascii_sharp_s: "upper_on_ascii sharp_s_upper"
  by (auto simp: upper_on_ascii_def sharp_s_upper_def is_ascii_def)

lemma matchCompoundSelector_sharp_s:
  assumes "getTagName ops node = [CHR 0xDF]"
  shows "matchCompoundSelector sharp_s_upper ops node (by_type ''SS'')"
    and "matchCompoundSelector sharp_s_upper ops node (by_type ''ss'')"
    and "\<not> matchCompoundSelector ascii_toUpperCase ops node (by_type ''SS'')"
  using assms
  by (simp_all add: matchCompoundSelector_def by_type_def sharp_s_upper_def
        ascii_toUpperCase_def ascii_toUpperCaseChar_def small_letters_def capital_letters_def)

section \<open>The combinator collectors\<close>

lemma push_unique_consistent:
  "consistent st \<Longrightarrow> consistent (push_unique t st)"
  by (auto simp: consistent_def push_unique_def)

lemma set_push_unique:
  "consistent st \<Longrightarrow> set (fst (push_unique t st)) = insert t (set (fst st))"
  by (auto simp: consistent_def push_unique_def)

lemma step_rel_Image: "step_rel step `` {n} = set_option (step n)"
  by (auto simp: step_rel_def)

lemma step_rel_rtrancl_Image:
  "(step_rel step)\<^sup>* `` {n} = insert n ((step_rel step)\<^sup>* `` set_option (step n))"
proof -
  have "(step_rel step)\<^sup>* `` {n} = insert n ((step_rel step)\<^sup>* `` (step_rel step `` {n}))"
    by (auto elim: converse_rtranclE intro: converse_rtrancl_into_rtrancl)
  then show ?thesis by (simp add: step_rel_Image)
qed

lemma step_rel_trancl_Image:
  "(step_rel step)\<^sup>+ `` {n} = (step_rel step)\<^sup>* `` set_option (step n)"
proof -
  have "(step_rel step)\<^sup>+ `` {n} = (step_rel step)\<^sup>* `` (step_rel step `` {n})"
    by (auto simp: trancl_unfold_left)
  then show ?thesis by (simp add: step_rel_Image)
qed

text \<open>
  The \<^verbatim>\<open>while\<close> loop returns when the chain is well-founded, and it adds the nodes of
  the chain to the array.
\<close>

lemma collect_chain_Some:
  assumes "wf ((step_rel step)\<inverse>)"
  shows "consistent st \<Longrightarrow>
    \<exists>st'. collect_chain step (Some n) st = Some st' \<and> consistent st' \<and>
      set (fst st') = set (fst st) \<union> (step_rel step)\<^sup>* `` {n}"
  using assms
proof (induction n arbitrary: st rule: wf_induct_rule)
  case (less n)
  have unfold: "collect_chain step (Some n) st = collect_chain step (step n) (push_unique n st)"
    by (subst collect_chain.simps) simp
  have pushed: "consistent (push_unique n st)"
    using less.prems by (rule push_unique_consistent)
  show ?case
  proof (cases "step n")
    case None
    have "collect_chain step None (push_unique n st) = Some (push_unique n st)"
      by (subst collect_chain.simps) simp
    moreover have "(step_rel step)\<^sup>* `` {n} = {n}"
      by (subst step_rel_rtrancl_Image) (simp add: None)
    ultimately show ?thesis
      using pushed less.prems by (simp add: unfold None set_push_unique)
  next
    case (Some m)
    then have "(m, n) \<in> (step_rel step)\<inverse>"
      by (simp add: step_rel_def)
    from less.IH [OF this pushed] obtain st' where
      "collect_chain step (Some m) (push_unique n st) = Some st'" "consistent st'"
      "set (fst st') = set (fst (push_unique n st)) \<union> (step_rel step)\<^sup>* `` {m}"
      by blast
    moreover have "(step_rel step)\<^sup>* `` {n} = insert n ((step_rel step)\<^sup>* `` {m})"
      by (subst step_rel_rtrancl_Image) (simp add: Some)
    ultimately show ?thesis
      using less.prems by (simp add: unfold Some set_push_unique)
  qed
qed

lemma collect_chain_from:
  assumes "wf ((step_rel step)\<inverse>)" and "consistent st"
  shows "\<exists>st'. collect_chain step (step node) st = Some st' \<and> consistent st' \<and>
      set (fst st') = set (fst st) \<union> (step_rel step)\<^sup>+ `` {node}"
proof (cases "step node")
  case None
  have "collect_chain step None st = Some st"
    by (subst collect_chain.simps) simp
  then show ?thesis
    using assms(2) by (simp add: None step_rel_trancl_Image)
next
  case (Some m)
  show ?thesis
    using collect_chain_Some [OF assms, of m] by (simp add: Some step_rel_trancl_Image)
qed

lemma collect_one_Some:
  assumes "consistent st"
  shows "\<exists>st'. collect_one step node st = Some st' \<and> consistent st' \<and>
      set (fst st') = set (fst st) \<union> step_rel step `` {node}"
  using assms
  by (cases "step node")
     (simp_all add: collect_one_def step_rel_Image push_unique_consistent set_push_unique)

text \<open>The \<^verbatim>\<open>for\<close> loop of a collector, for a body that adds \<open>r `` {node}\<close>.\<close>

lemma for_nodes_Some:
  assumes body: "\<And>node st. consistent st \<Longrightarrow>
      \<exists>st'. body node st = Some st' \<and> consistent st' \<and>
        set (fst st') = set (fst st) \<union> r `` {node}"
  shows "consistent st \<Longrightarrow>
    \<exists>st'. for_nodes body nodes st = Some st' \<and> consistent st' \<and>
      set (fst st') = set (fst st) \<union> r `` set nodes"
proof (induction nodes arbitrary: st)
  case Nil
  then show ?case by simp
next
  case (Cons node nodes)
  from body [OF Cons.prems, of node] obtain st1 where
    st1: "body node st = Some st1" "consistent st1"
      "set (fst st1) = set (fst st) \<union> r `` {node}"
    by blast
  from Cons.IH [OF st1(2)] obtain st2 where
    "for_nodes body nodes st1 = Some st2" "consistent st2"
    "set (fst st2) = set (fst st1) \<union> r `` set nodes"
    by blast
  then show ?case
    using st1 by auto
qed

lemma consistent_empty: "consistent ([], {})"
  by (simp add: consistent_def)

lemma for_nodes_result:
  assumes "\<And>node st. consistent st \<Longrightarrow>
      \<exists>st'. body node st = Some st' \<and> consistent st' \<and>
        set (fst st') = set (fst st) \<union> r `` {node}"
  shows "\<exists>xs. map_option (\<lambda>st. Inr (fst st)) (for_nodes body nodes ([], {})) = Some (Inr xs) \<and>
      distinct xs \<and> set xs = r `` set nodes"
proof -
  have "\<exists>st'. for_nodes body nodes ([], {}) = Some st' \<and> consistent st' \<and>
      set (fst st') = set (fst (([], {}) :: 'a collected)) \<union> r `` set nodes"
    using assms consistent_empty by (rule for_nodes_Some)
  then show ?thesis
    by (auto simp: consistent_def)
qed

lemma collectors_Descendant:
  assumes "wf ((parent_rel ops)\<inverse>)"
  shows "\<exists>xs. collectors ops Descendant nodes = Some (Inr xs) \<and> distinct xs \<and>
      set xs = (parent_rel ops)\<^sup>+ `` set nodes"
proof -
  have rel: "parent_rel ops = step_rel (getParent ops)"
    by (simp add: parent_rel_def step_rel_def)
  then have wf: "wf ((step_rel (getParent ops))\<inverse>)"
    using assms by simp
  show ?thesis
    unfolding collectors.simps rel
    by (rule for_nodes_result) (rule collect_chain_from [OF wf])
qed

lemma collectors_SubsequentSibling:
  assumes "wf ((previous_rel ops)\<inverse>)"
  shows "\<exists>xs. collectors ops SubsequentSibling nodes = Some (Inr xs) \<and> distinct xs \<and>
      set xs = (previous_rel ops)\<^sup>+ `` set nodes"
proof -
  have rel: "previous_rel ops = step_rel (getPreviouSibling ops)"
    by (simp add: previous_rel_def step_rel_def)
  then have wf: "wf ((step_rel (getPreviouSibling ops))\<inverse>)"
    using assms by simp
  show ?thesis
    unfolding collectors.simps rel
    by (rule for_nodes_result) (rule collect_chain_from [OF wf])
qed

lemma collectors_Child:
  "\<exists>xs. collectors ops Child nodes = Some (Inr xs) \<and> distinct xs \<and>
      set xs = parent_rel ops `` set nodes"
proof -
  have rel: "parent_rel ops = step_rel (getParent ops)"
    by (simp add: parent_rel_def step_rel_def)
  show ?thesis
    unfolding collectors.simps rel
    by (rule for_nodes_result) (rule collect_one_Some)
qed

lemma collectors_NextSibling:
  "\<exists>xs. collectors ops NextSibling nodes = Some (Inr xs) \<and> distinct xs \<and>
      set xs = previous_rel ops `` set nodes"
proof -
  have rel: "previous_rel ops = step_rel (getPreviouSibling ops)"
    by (simp add: previous_rel_def step_rel_def)
  show ?thesis
    unfolding collectors.simps rel
    by (rule for_nodes_result) (rule collect_one_Some)
qed

text \<open>
  C4: the Descendant collector returns the strict ancestors of the candidates, the Child
  collector their parents, the NextSibling collector the siblings just before them
  (\<^verbatim>\<open>getPreviouSibling\<close>), the SubsequentSibling collector all the siblings before them, and
  each returns every node once. The two collectors that follow a chain return when the
  chains of the adapter are well-founded.
\<close>

theorem collectors_sets:
  "(wf ((parent_rel ops)\<inverse>) \<longrightarrow>
      (\<exists>xs. collectors ops Descendant nodes = Some (Inr xs) \<and> distinct xs \<and>
         set xs = {a. \<exists>c \<in> set nodes. (c, a) \<in> (parent_rel ops)\<^sup>+})) \<and>
   (\<exists>xs. collectors ops Child nodes = Some (Inr xs) \<and> distinct xs \<and>
      set xs = {a. \<exists>c \<in> set nodes. getParent ops c = Some a}) \<and>
   (\<exists>xs. collectors ops NextSibling nodes = Some (Inr xs) \<and> distinct xs \<and>
      set xs = {a. \<exists>c \<in> set nodes. getPreviouSibling ops c = Some a}) \<and>
   (wf ((previous_rel ops)\<inverse>) \<longrightarrow>
      (\<exists>xs. collectors ops SubsequentSibling nodes = Some (Inr xs) \<and> distinct xs \<and>
         set xs = {a. \<exists>c \<in> set nodes. (c, a) \<in> (previous_rel ops)\<^sup>+}))"
proof -
  have image: "r `` set nodes = {a. \<exists>c \<in> set nodes. (c, a) \<in> r}" for r
    by auto
  have "parent_rel ops `` set nodes = {a. \<exists>c \<in> set nodes. getParent ops c = Some a}"
    by (auto simp: parent_rel_def)
  moreover have "previous_rel ops `` set nodes =
      {a. \<exists>c \<in> set nodes. getPreviouSibling ops c = Some a}"
    by (auto simp: previous_rel_def)
  ultimately show ?thesis
    using collectors_Descendant [of ops nodes] collectors_Child [of ops nodes]
      collectors_NextSibling [of ops nodes] collectors_SubsequentSibling [of ops nodes]
    by (simp only: image [symmetric]) blast
qed

text \<open>
  On the document, for the candidates \<open>5\<close> and \<open>6\<close> (the two articles of class \<^verbatim>\<open>bad\<close>).
\<close>

theorem collectors_sets_witness:
  "wf ((parent_rel doc)\<inverse>) \<and> wf ((previous_rel doc)\<inverse>) \<and>
   collectors doc Descendant [Article3, Article4] = Some (Inr [Gallery, Container, Body]) \<and>
   {Gallery, Container, Body} = {a. (Article3, a) \<in> (parent_rel doc)\<^sup>+ \<or> (Article4, a) \<in> (parent_rel doc)\<^sup>+} \<and>
   collectors doc Child [Article3, Article4] = Some (Inr [Gallery]) \<and>
   collectors doc NextSibling [Article3, Article4] = Some (Inr [Article2, Article3]) \<and>
   collectors doc SubsequentSibling [Article3, Article4] = Some (Inr [Article2, Article1, Article3]) \<and>
   {Article2, Article1, Article3} = {a. (Article3, a) \<in> (previous_rel doc)\<^sup>+ \<or> (Article4, a) \<in> (previous_rel doc)\<^sup>+}"
  using collectors_sets [of doc "[Article3, Article4]"] wf_doc_parent wf_doc_previous
  unfolding collectors_doc
  by simp

section \<open>The complex selector matcher\<close>

text \<open>
  A collector on a candidate array returns what the specification's collector gives on
  the set of the candidates.
\<close>

lemma collectors_collector_set:
  assumes "wf ((parent_rel ops)\<inverse>)" and "wf ((previous_rel ops)\<inverse>)"
  shows "\<exists>r. collectors ops combinator nodes = Some r \<and>
      map_sum (\<lambda>e. e) set r = collector_set ops combinator (set nodes)"
proof (cases combinator)
  case Descendant
  from collectors_Descendant [OF assms(1), of nodes] show ?thesis
    unfolding Descendant by auto
next
  case Child
  from collectors_Child [of ops nodes] show ?thesis
    unfolding Child by auto
next
  case NextSibling
  from collectors_NextSibling [of ops nodes] show ?thesis
    unfolding NextSibling by auto
next
  case SubsequentSibling
  from collectors_SubsequentSibling [OF assms(2), of nodes] show ?thesis
    unfolding SubsequentSibling by auto
next
  case Column
  then show ?thesis by simp
qed

lemma filter_empty_set: "filter P xs = [] \<longleftrightarrow> {t \<in> set xs. P t} = {}"
  by (auto simp: filter_empty_conv)

lemma matchComplexSelector_finish:
  "matchComplexSelector toUpperCase ops node sel =
     map_option (finish toUpperCase ops (head sel)) (matchComplexSelector_loop toUpperCase ops (rev (tail sel)) [node])"
  by (simp add: matchComplexSelector_def finish_def split: option.splits sum.splits)

lemma matchComplexSelector_loop_evaluate:
  assumes "wf ((parent_rel ops)\<inverse>)" and "wf ((previous_rel ops)\<inverse>)"
  shows "map_option (finish toUpperCase ops first) (matchComplexSelector_loop toUpperCase ops pairs candidates) =
      Some (evaluate_pairs toUpperCase ops pairs first (set candidates))"
proof (induction pairs arbitrary: candidates)
  case Nil
  show ?case
    by (simp add: finish_def filter_empty_set)
next
  case (Cons pair pairs)
  obtain combinator selector where pair: "pair = (combinator, selector)"
    by (cases pair)
  let ?filtered = "filter (\<lambda>t. matchCompoundSelector toUpperCase ops t selector) candidates"
  have set_filtered: "set ?filtered = {t \<in> set candidates. matchCompoundSelector toUpperCase ops t selector}"
    by auto
  show ?case
  proof (cases "?filtered = []")
    case True
    then have "{t \<in> set candidates. matchCompoundSelector toUpperCase ops t selector} = {}"
      by (simp add: filter_empty_set)
    then show ?thesis
      using True by (simp add: pair finish_def)
  next
    case False
    then have nonempty: "{t \<in> set candidates. matchCompoundSelector toUpperCase ops t selector} \<noteq> {}"
      by (simp add: filter_empty_set)
    from collectors_collector_set [OF assms, of combinator ?filtered] obtain r where
      r: "collectors ops combinator ?filtered = Some r"
        "map_sum (\<lambda>e. e) set r =
           collector_set ops combinator {t \<in> set candidates. matchCompoundSelector toUpperCase ops t selector}"
      unfolding set_filtered by blast
    have step: "matchComplexSelector_loop toUpperCase ops (pair # pairs) candidates =
        (case r of Inl e \<Rightarrow> Some (Inl e)
         | Inr collected \<Rightarrow> matchComplexSelector_loop toUpperCase ops pairs collected)"
      using False r(1) unfolding pair by (simp add: Let_def)
    have code: "map_option (finish toUpperCase ops first)
          (matchComplexSelector_loop toUpperCase ops (pair # pairs) candidates) =
        (case r of Inl e \<Rightarrow> Some (Inl e)
         | Inr collected \<Rightarrow>
             map_option (finish toUpperCase ops first) (matchComplexSelector_loop toUpperCase ops pairs collected))"
      by (simp only: step) (simp add: finish_def split: sum.splits)
    have spec: "evaluate_pairs toUpperCase ops (pair # pairs) first (set candidates) =
        (case collector_set ops combinator
            {t \<in> set candidates. matchCompoundSelector toUpperCase ops t selector} of
           Inl e \<Rightarrow> Inl e
         | Inr S' \<Rightarrow> evaluate_pairs toUpperCase ops pairs first S')"
      using nonempty by (auto simp: pair)
    show ?thesis
    proof (cases r)
      case (Inl e)
      then have "collector_set ops combinator
          {t \<in> set candidates. matchCompoundSelector toUpperCase ops t selector} = Inl e"
        using r(2) by simp
      then show ?thesis
        by (simp only: code spec Inl sum.case)
    next
      case (Inr collected)
      then have "collector_set ops combinator
          {t \<in> set candidates. matchCompoundSelector toUpperCase ops t selector} = Inr (set collected)"
        using r(2) by simp
      then show ?thesis
        using Cons.IH [of collected] by (simp only: code spec Inr sum.case)
    qed
  qed
qed

lemma matchComplexSelector_evaluate:
  assumes "wf ((parent_rel ops)\<inverse>)" and "wf ((previous_rel ops)\<inverse>)"
  shows "matchComplexSelector toUpperCase ops node sel = Some (right_to_left toUpperCase ops node sel)"
  using matchComplexSelector_loop_evaluate [OF assms, where first = "head sel"
      and pairs = "rev (tail sel)" and candidates = "[node]" and toUpperCase = toUpperCase]
  by (simp add: matchComplexSelector_finish right_to_left_def)

text \<open>
  C3: \<^verbatim>\<open>matchComplexSelector\<close> returns what the right-to-left evaluation of the
  specification gives from the candidate set \<open>{node}\<close>: each pair of the tail, from the last
  to the first, filters the set by its compound selector, fails at once when nothing is
  left and otherwise hands the set to the collector of its combinator; the head filters
  last, and the node matches when something is left. The matcher returns when the chains
  of parents and of previous siblings are well-founded.
\<close>

theorem matchComplexSelector_right_to_left:
  assumes "wf ((parent_rel ops)\<inverse>)" and "wf ((previous_rel ops)\<inverse>)"
  shows "matchComplexSelector toUpperCase ops node sel = Some (right_to_left toUpperCase ops node sel)"
  using assms by (rule matchComplexSelector_evaluate)

text \<open>
  On the document: the fifth node matches \<^verbatim>\<open>.container > .gallery > .bad\<close>, the third does
  not.
\<close>

theorem matchComplexSelector_right_to_left_witness:
  "wf ((parent_rel doc)\<inverse>) \<and> wf ((previous_rel doc)\<inverse>) \<and>
   matchComplexSelector ascii_toUpperCase doc Article3
     \<lparr> head = by_class ''container'',
       tail = [(Child, by_class ''gallery''), (Child, by_class ''bad'')] \<rparr> = Some (Inr True) \<and>
   right_to_left ascii_toUpperCase doc Article3
     \<lparr> head = by_class ''container'',
       tail = [(Child, by_class ''gallery''), (Child, by_class ''bad'')] \<rparr> = Inr True \<and>
   right_to_left ascii_toUpperCase doc Article1
     \<lparr> head = by_class ''container'',
       tail = [(Child, by_class ''gallery''), (Child, by_class ''bad'')] \<rparr> = Inr False"
proof -
  let ?sel = "\<lparr> head = by_class ''container'',
       tail = [(Child, by_class ''gallery''), (Child, by_class ''bad'')] \<rparr>"
  have "matchComplexSelector ascii_toUpperCase doc Article3 ?sel = Some (Inr True)"
    and "matchComplexSelector ascii_toUpperCase doc Article1 ?sel = Some (Inr False)"
    by (simp_all add: match_defs selector_defs doc_defs)
  then show ?thesis
    using matchComplexSelector_right_to_left [OF wf_doc_parent wf_doc_previous,
        where toUpperCase = ascii_toUpperCase and sel = ?sel]
      wf_doc_parent wf_doc_previous
    by simp
qed

text \<open>
  The early failure comes before the collector: a node that is not an \<^verbatim>\<open>article\<close> does not
  match \<^verbatim>\<open>x || article\<close>, and an \<^verbatim>\<open>article\<close> makes the matcher raise.
\<close>

lemma matchComplexSelector_column:
  "matchComplexSelector ascii_toUpperCase doc Container
     \<lparr> head = by_type ''x'', tail = [(Column, by_type ''article'')] \<rparr> = Some (Inr False)"
  "matchComplexSelector ascii_toUpperCase doc Article1
     \<lparr> head = by_type ''x'', tail = [(Column, by_type ''article'')] \<rparr> =
   Some (Inl ColumnNotSupported)"
  by (simp_all add: match_defs selector_defs doc_defs)

section \<open>The traversal\<close>

text \<open>
  Everything that consumes a generator sees it through \<open>next_node\<close> only.
\<close>

lemma yielded_next_node:
  "next_node ops gen = next_node ops gen' \<Longrightarrow> yielded ops gen = yielded ops gen'"
  by (simp add: yielded.simps [of ops gen] yielded.simps [of ops gen'])

lemma yielded_done: "next_node ops gen = None \<Longrightarrow> yielded ops gen = Some []"
  by (simp add: yielded.simps [of ops gen])

lemma yielded_node:
  "next_node ops gen = Some (node, gen') \<Longrightarrow>
   yielded ops gen = map_option ((#) node) (yielded ops gen')"
  by (cases "yielded ops gen'") (simp_all add: yielded.simps [of ops gen])

lemma yielded_Nil: "yielded ops gen = Some [] \<Longrightarrow> next_node ops gen = None"
  by (cases "next_node ops gen") (auto simp: yielded_node)

lemma yielded_Cons:
  assumes "yielded ops gen = Some (v # vs)"
  shows "\<exists>gen'. next_node ops gen = Some (v, gen') \<and> yielded ops gen' = Some vs"
proof (cases "next_node ops gen")
  case None
  then show ?thesis using assms by (simp add: yielded_done)
next
  case (Some p)
  obtain node gen' where "p = (node, gen')" by (cases p)
  then show ?thesis using assms Some by (auto simp: yielded_node)
qed

text \<open>
  The generator started on a presented tree yields the preorder of the tree and then goes
  on with the rest of the stack; a loop over presented subtrees yields their preorders one
  after the other.
\<close>

lemma yielded_tree:
  "presents ops t \<Longrightarrow>
   yielded ops (Start (root_node t) True # rest) =
     map_option ((@) (preorder t)) (yielded ops rest)"
proof (induction t arbitrary: rest)
  case (Node n ts)
  have forest: "set us \<subseteq> set ts \<Longrightarrow>
      yielded ops (Children (map root_node us) # rest') =
        map_option ((@) (concat (map preorder us))) (yielded ops rest')" for us rest'
  proof (induction us arbitrary: rest')
    case Nil
    have "yielded ops (Children [] # rest') = yielded ops rest'"
      by (rule yielded_next_node) simp
    then show ?case
      by (simp add: option.map_ident)
  next
    case (Cons u us)
    have u: "u \<in> set ts" "presents ops u"
      using Cons.prems Node.prems by auto
    have "yielded ops (Children (map root_node (u # us)) # rest') =
        yielded ops (Start (root_node u) True # Children (map root_node us) # rest')"
      by (rule yielded_next_node) simp
    also have "\<dots> = map_option ((@) (preorder u)) (yielded ops (Children (map root_node us) # rest'))"
      using u by (rule Node.IH)
    also have "\<dots> = map_option ((@) (concat (map preorder (u # us)))) (yielded ops rest')"
      using Cons.IH [of rest'] Cons.prems by (cases "yielded ops rest'") simp_all
    finally show ?case .
  qed
  have "yielded ops (Start n True # rest) =
      map_option ((#) n) (yielded ops (Children (map root_node ts) # rest))"
    using Node.prems by (simp add: yielded_node)
  then show ?case
    using forest [of ts rest] by (simp add: option.map_comp comp_def)
qed

lemma yielded_presents:
  assumes "presents ops t"
  shows "yielded ops (preorderDepthFirstTraverse (root_node t) True) = Some (preorder t)"
    and "yielded ops (preorderDepthFirstTraverse (root_node t) False) = Some (tl (preorder t))"
proof -
  have empty: "yielded ops [] = Some []"
    by (simp add: yielded_done)
  show whole: "yielded ops (preorderDepthFirstTraverse (root_node t) True) = Some (preorder t)"
    using yielded_tree [OF assms, of "[]"] by (simp add: preorderDepthFirstTraverse_def empty)
  obtain n ts where t: "t = Node n ts" by (cases t)
  have "yielded ops [Start n False] = yielded ops [Children (getChildren ops n)]"
    by (rule yielded_next_node) simp
  moreover have "yielded ops [Start n True] =
      map_option ((#) n) (yielded ops [Children (getChildren ops n)])"
    by (simp add: yielded_node)
  ultimately show "yielded ops (preorderDepthFirstTraverse (root_node t) False) = Some (tl (preorder t))"
    using whole by (auto simp: preorderDepthFirstTraverse_def t)
qed

text \<open>An adapter whose children relation is well-founded presents a tree at every node.\<close>

lemma presents_exists:
  assumes "wf ((child_rel ops)\<inverse>)"
  shows "\<exists>t. root_node t = n \<and> presents ops t"
  using assms
proof (induction n rule: wf_induct_rule)
  case (less n)
  have "\<forall>c \<in> set (getChildren ops n). \<exists>t. root_node t = c \<and> presents ops t"
    using less.IH by (simp add: child_rel_def)
  then obtain f where f: "\<forall>c \<in> set (getChildren ops n). root_node (f c) = c \<and> presents ops (f c)"
    by metis
  have "presents ops (Node n (map f (getChildren ops n)))"
    using f by (simp add: comp_def cong: map_cong)
  then show ?case
    by (intro exI [of _ "Node n (map f (getChildren ops n))"]) simp
qed

text \<open>
  The loops of the two queries over a generator whose sequence is finite are the loops
  over the list of its nodes.
\<close>

lemma querySelectorAll_loop_yielded:
  "yielded ops gen = Some vs \<Longrightarrow>
   querySelectorAll_loop toUpperCase ops sels gen matchList =
     collect_matching (\<lambda>node. matchSelectors toUpperCase ops node sels) vs matchList"
proof (induction vs arbitrary: gen matchList)
  case Nil
  then have "next_node ops gen = None" by (rule yielded_Nil)
  then show ?case
    by (simp add: querySelectorAll_loop.simps [of toUpperCase ops sels gen])
next
  case (Cons v vs)
  from yielded_Cons [OF Cons.prems] obtain gen' where
    gen': "next_node ops gen = Some (v, gen')" "yielded ops gen' = Some vs"
    by blast
  show ?case
    using gen'(1) Cons.IH [OF gen'(2)]
    by (simp add: querySelectorAll_loop.simps [of toUpperCase ops sels gen]
          split: option.splits sum.splits)
qed

lemma querySelector_loop_yielded:
  "yielded ops gen = Some vs \<Longrightarrow>
   querySelector_loop toUpperCase ops sels gen = first_matching (\<lambda>node. matchSelectors toUpperCase ops node sels) vs"
proof (induction vs arbitrary: gen)
  case Nil
  then have "next_node ops gen = None" by (rule yielded_Nil)
  then show ?case
    by (simp add: querySelector_loop.simps [of toUpperCase ops sels gen])
next
  case (Cons v vs)
  from yielded_Cons [OF Cons.prems] obtain gen' where
    gen': "next_node ops gen = Some (v, gen')" "yielded ops gen' = Some vs"
    by blast
  show ?case
    using gen'(1) Cons.IH [OF gen'(2)]
    by (simp add: querySelector_loop.simps [of toUpperCase ops sels gen]
          split: option.splits sum.splits)
qed

lemma collect_matching_filter:
  "\<forall>n \<in> set vs. \<exists>b. matches n = Some (Inr b) \<Longrightarrow>
   collect_matching matches vs matchList =
     Some (Inr (matchList @ filter (\<lambda>n. matches n = Some (Inr True)) vs))"
  by (induction vs arbitrary: matchList) auto

section \<open>querySelectorAll\<close>

lemma querySelectorAll_collect:
  assumes "parse selectors = Inr sels"
    and "yielded ops (preorderDepthFirstTraverse start False) = Some vs"
  shows "querySelectorAll toUpperCase ops parse start selectors =
      collect_matching (\<lambda>node. matchSelectors toUpperCase ops node sels) vs []"
  using assms by (simp add: querySelectorAll_def querySelectorAll_loop_yielded)

lemma querySelector_first:
  assumes "parse selectors = Inr sels"
    and "yielded ops (preorderDepthFirstTraverse start False) = Some vs"
  shows "querySelector toUpperCase ops parse start selectors =
      first_matching (\<lambda>node. matchSelectors toUpperCase ops node sels) vs"
  using assms by (simp add: querySelector_def querySelector_loop_yielded)

text \<open>
  C1: on an adapter that presents the tree \<open>t\<close>, the generator started at the root of \<open>t\<close>
  without the root yields the preorder of \<open>t\<close> less its first node, and, when the match of
  every visited node returns a boolean, \<^verbatim>\<open>querySelectorAll\<close> returns the visited nodes that
  the parsed selector list matches, in that order. The result is a list: it is empty when
  nothing matches.
\<close>

theorem querySelectorAll_preorder:
  assumes "parse selectors = Inr sels"
    and "presents ops t"
    and "\<forall>n \<in> set (tl (preorder t)). \<exists>b. matchSelectors toUpperCase ops n sels = Some (Inr b)"
  shows "yielded ops (preorderDepthFirstTraverse (root_node t) False) = Some (tl (preorder t)) \<and>
    querySelectorAll toUpperCase ops parse (root_node t) selectors =
      Some (Inr (filter (\<lambda>n. matchSelectors toUpperCase ops n sels = Some (Inr True)) (tl (preorder t))))"
proof -
  have visited: "yielded ops (preorderDepthFirstTraverse (root_node t) False) =
      Some (tl (preorder t))"
    using assms(2) by (rule yielded_presents(2))
  have "querySelectorAll toUpperCase ops parse (root_node t) selectors =
      collect_matching (\<lambda>node. matchSelectors toUpperCase ops node sels) (tl (preorder t)) []"
    using assms(1) visited by (rule querySelectorAll_collect)
  then show ?thesis
    using visited collect_matching_filter [OF assms(3), of "[]"] by simp
qed

lemma doc_gallery_matches:
  fixes sel defines "sel \<equiv> \<lparr> head = by_class ''container'',
      tail = [(Child, by_class ''gallery''), (Child, by_class ''bad'')] \<rparr>"
  shows "matchSelectors ascii_toUpperCase doc Container [sel] = Some (Inr False)"
    and "matchSelectors ascii_toUpperCase doc Gallery [sel] = Some (Inr False)"
    and "matchSelectors ascii_toUpperCase doc Article1 [sel] = Some (Inr False)"
    and "matchSelectors ascii_toUpperCase doc Article2 [sel] = Some (Inr False)"
    and "matchSelectors ascii_toUpperCase doc Article3 [sel] = Some (Inr True)"
    and "matchSelectors ascii_toUpperCase doc Article4 [sel] = Some (Inr True)"
    and "matchSelectors ascii_toUpperCase doc Article5 [sel] = Some (Inr False)"
    and "matchSelectors ascii_toUpperCase doc Article6 [sel] = Some (Inr False)"
  by (simp_all add: sel_def match_defs selector_defs doc_defs)

text \<open>
  The scenario of \<^verbatim>\<open>test/index.js\<close>: \<^verbatim>\<open>.container > .gallery > .bad\<close> from \<^verbatim>\<open>body\<close> gives
  the two articles of class \<^verbatim>\<open>bad\<close>, in document order; a selector that matches nothing
  gives the empty list.
\<close>

theorem querySelectorAll_preorder_witness:
  "doc_parse ''.container > .gallery > .bad'' =
     Inr [\<lparr> head = by_class ''container'',
            tail = [(Child, by_class ''gallery''), (Child, by_class ''bad'')] \<rparr>] \<and>
   presents doc doc_tree \<and>
   yielded doc (preorderDepthFirstTraverse Body False) =
     Some [Container, Gallery, Article1, Article2, Article3, Article4, Article5, Article6] \<and>
   querySelectorAll ascii_toUpperCase doc doc_parse Body ''.container > .gallery > .bad'' =
     Some (Inr [Article3, Article4])"
proof -
  let ?sels = "[\<lparr> head = by_class ''container'',
            tail = [(Child, by_class ''gallery''), (Child, by_class ''bad'')] \<rparr>]"
  have parsed: "doc_parse ''.container > .gallery > .bad'' = Inr ?sels"
    by (simp add: doc_parse_def)
  have each: "\<forall>n \<in> set (tl (preorder doc_tree)). \<exists>b. matchSelectors ascii_toUpperCase doc n ?sels = Some (Inr b)"
    unfolding doc_preorder by (auto simp: doc_gallery_matches simp del: matchSelectors.simps)
  have "filter (\<lambda>n. matchSelectors ascii_toUpperCase doc n ?sels = Some (Inr True))
        [Container, Gallery, Article1, Article2, Article3, Article4, Article5, Article6] =
      [Article3, Article4]"
    by (simp add: doc_gallery_matches del: matchSelectors.simps)
  then show ?thesis
    using querySelectorAll_preorder [where toUpperCase = ascii_toUpperCase
        and parse = doc_parse and ops = doc and t = doc_tree
        and selectors = "''.container > .gallery > .bad''" and sels = ?sels]
      parsed doc_presented each
    by (simp add: doc_preorder) (simp add: doc_tree_def)
qed

lemma querySelectorAll_empty:
  "querySelectorAll ascii_toUpperCase doc doc_parse Gallery ''.gallery'' = Some (Inr [])"
  by (simp add: querySelectorAll_def doc_parse_def preorderDepthFirstTraverse_def
        querySelectorAll_loop.simps match_defs selector_defs doc_defs)

section \<open>Termination on well-founded adapters\<close>

lemma collectors_Some:
  assumes "wf ((parent_rel ops)\<inverse>)" and "wf ((previous_rel ops)\<inverse>)"
  shows "\<exists>r. collectors ops combinator nodes = Some r"
  using collectors_collector_set [OF assms, of combinator nodes] by blast

lemma matchSelectors_Some:
  assumes "wf ((parent_rel ops)\<inverse>)" and "wf ((previous_rel ops)\<inverse>)"
  shows "\<exists>r. matchSelectors toUpperCase ops node sels = Some r"
proof (induction sels)
  case Nil
  show ?case by simp
next
  case (Cons sel sels)
  then show ?case
    by (simp add: matchComplexSelector_evaluate [OF assms] split: sum.splits)
qed

lemma collect_matching_Some:
  "(\<And>n. \<exists>r. matches n = Some r) \<Longrightarrow> \<exists>r. collect_matching matches vs matchList = Some r"
proof (induction vs arbitrary: matchList)
  case Nil
  show ?case by simp
next
  case (Cons v vs)
  obtain r where "matches v = Some r"
    using Cons.prems by blast
  then show ?case
    using Cons.IH [OF Cons.prems] by (cases r) simp_all
qed

lemma first_matching_Some:
  "(\<And>n. \<exists>r. matches n = Some r) \<Longrightarrow> \<exists>r. first_matching matches vs = Some r"
proof (induction vs)
  case Nil
  show ?case by simp
next
  case (Cons v vs)
  obtain r where "matches v = Some r"
    using Cons.prems by blast
  then show ?case
    using Cons.IH [OF Cons.prems] by (cases r) simp_all
qed

lemma yielded_Some:
  assumes "wf ((child_rel ops)\<inverse>)"
  shows "\<exists>vs. yielded ops (preorderDepthFirstTraverse start includeRoot) = Some vs"
proof -
  from presents_exists [OF assms, of start] obtain t where
    t: "root_node t = start" "presents ops t"
    by blast
  show ?thesis
    using yielded_presents [OF t(2)] t(1) by (cases includeRoot) auto
qed

text \<open>
  C9: when no chain of children, of parents or of previous siblings of the adapter goes
  on for ever, the generator yields a finite sequence, both queries return (a value or an
  error), and so does every collector, whose loops follow the chains of parents and of
  previous siblings.
\<close>

theorem queries_terminate:
  assumes "well_founded ops"
  shows "(\<exists>vs. yielded ops (preorderDepthFirstTraverse start includeRoot) = Some vs) \<and>
    (\<exists>r. querySelector toUpperCase ops parse start selectors = Some r) \<and>
    (\<exists>r. querySelectorAll toUpperCase ops parse start selectors = Some r) \<and>
    (\<exists>r. collectors ops combinator nodes = Some r)"
proof -
  have parents: "wf ((parent_rel ops)\<inverse>)" and previous: "wf ((previous_rel ops)\<inverse>)"
    and children: "wf ((child_rel ops)\<inverse>)"
    using assms by (simp_all add: well_founded_def)
  obtain vs where vs: "yielded ops (preorderDepthFirstTraverse start False) = Some vs"
    using yielded_Some [OF children] by blast
  have matches: "\<exists>r. matchSelectors toUpperCase ops n sels = Some r" for n sels
    using parents previous by (rule matchSelectors_Some)
  have "\<exists>r. querySelector toUpperCase ops parse start selectors = Some r"
  proof (cases "parse selectors")
    case (Inl e)
    then show ?thesis by (simp add: querySelector_def)
  next
    case (Inr sels)
    show ?thesis
      unfolding querySelector_first [where parse = parse and selectors = selectors, OF Inr vs]
      by (rule first_matching_Some) (rule matches)
  qed
  moreover have "\<exists>r. querySelectorAll toUpperCase ops parse start selectors = Some r"
  proof (cases "parse selectors")
    case (Inl e)
    then show ?thesis by (simp add: querySelectorAll_def)
  next
    case (Inr sels)
    show ?thesis
      unfolding querySelectorAll_collect [where parse = parse and selectors = selectors, OF Inr vs]
      by (rule collect_matching_Some) (rule matches)
  qed
  ultimately show ?thesis
    using yielded_Some [OF children] collectors_Some [OF parents previous] by blast
qed

text \<open>On the document, with a selector list whose second member raises.\<close>

theorem queries_terminate_witness:
  "well_founded doc \<and>
   yielded doc (preorderDepthFirstTraverse Body False) =
     Some [Container, Gallery, Article1, Article2, Article3, Article4, Article5, Article6] \<and>
   querySelector ascii_toUpperCase doc doc_parse Body ''div, x || article'' = Some (Inr (Some Container)) \<and>
   querySelectorAll ascii_toUpperCase doc doc_parse Body ''div, x || article'' = Some (Inl ColumnNotSupported) \<and>
   collectors doc Descendant [Article3, Article4] = Some (Inr [Gallery, Container, Body])"
proof -
  have "yielded doc (preorderDepthFirstTraverse Body False) =
      Some [Container, Gallery, Article1, Article2, Article3, Article4, Article5, Article6]"
    by (simp add: preorderDepthFirstTraverse_def yielded.simps doc_defs)
  moreover have "querySelector ascii_toUpperCase doc doc_parse Body ''div, x || article'' =
      Some (Inr (Some Container))"
    by (simp add: query_defs match_defs selector_defs doc_defs)
  moreover have "querySelectorAll ascii_toUpperCase doc doc_parse Body ''div, x || article'' =
      Some (Inl ColumnNotSupported)"
    by (simp add: query_defs match_defs selector_defs doc_defs)
  ultimately show ?thesis
    using queries_terminate [where toUpperCase = ascii_toUpperCase and ops = doc and start = Body and includeRoot = False
        and parse = doc_parse and selectors = "''div, x || article''"
        and combinator = Descendant and nodes = "[Article3, Article4]"]
      well_founded_doc collectors_doc(1)
    by simp
qed

text \<open>
  Without the precondition the loops need not return: a node that is its own parent keeps
  the Descendant collector in its \<^verbatim>\<open>while\<close> loop, and a node that is its own only child
  keeps the generator yielding.
\<close>

lemma collect_chain_cycle:
  assumes "collect_chain step t st = Some st'"
  shows "\<forall>n. t = Some n \<longrightarrow> step n \<noteq> Some n"
proof (rule collect_chain.raw_induct [OF _ assms], goal_cases)
  case (1 loop step t st st')
  show ?case
  proof (intro allI impI notI)
    fix n assume "t = Some n" "step n = Some n"
    then have "loop step (Some n) (push_unique n st) = Some st'"
      using 1(2) by simp
    from 1(1) [OF this] show False
      using \<open>step n = Some n\<close> by simp
  qed
qed

lemma collectors_Descendant_cycle:
  assumes "getParent ops n = Some n"
  shows "collectors ops Descendant (n # nodes) = None"
proof -
  have "collect_chain (getParent ops) (Some n) ([], {}) = None"
    using collect_chain_cycle [of "getParent ops" "Some n" "([], {})"] assms
    by (cases "collect_chain (getParent ops) (Some n) ([], {})") auto
  then show ?thesis
    by (simp add: assms)
qed

lemma yielded_cycle:
  assumes "yielded ops gen = Some vs"
  shows "\<forall>n. getChildren ops n = [n] \<longrightarrow>
    (\<forall>b cs rest. gen \<noteq> Start n b # rest \<and> gen \<noteq> Children (n # cs) # rest)"
proof (rule yielded.raw_induct [OF _ assms], goal_cases)
  case (1 yielded' ops gen vs)
  show ?case
  proof (intro allI impI)
    fix n b cs rest
    assume n: "getChildren ops n = [n]"
    have start: "gen \<noteq> Start n b # rest" for b rest
    proof
      assume gen: "gen = Start n b # rest"
      have "next_node ops gen = Some (n, Children [n] # (if b then rest else Children [] # rest))"
        by (cases b) (simp_all add: gen n)
      then obtain ws where
        "yielded' ops (Children [n] # (if b then rest else Children [] # rest)) = Some ws"
        using 1(2) by (auto split: Option.bind_splits)
      from 1(1) [OF this] n show False
        by blast
    qed
    have "gen \<noteq> Children (n # cs) # rest"
    proof
      assume gen: "gen = Children (n # cs) # rest"
      have "next_node ops gen = Some (n, Children [n] # Children cs # rest)"
        by (simp add: gen n)
      then obtain ws where "yielded' ops (Children [n] # Children cs # rest) = Some ws"
        using 1(2) by (auto split: Option.bind_splits)
      from 1(1) [OF this] n show False
        by blast
    qed
    then show "gen \<noteq> Start n b # rest \<and> gen \<noteq> Children (n # cs) # rest"
      using start by simp
  qed
qed

lemma preorderDepthFirstTraverse_cycle:
  assumes "getChildren ops n = [n]"
  shows "yielded ops (preorderDepthFirstTraverse n includeRoot) = None"
  using yielded_cycle [of ops "preorderDepthFirstTraverse n includeRoot"] assms
  by (cases "yielded ops (preorderDepthFirstTraverse n includeRoot)")
     (auto simp: preorderDepthFirstTraverse_def)

section \<open>querySelector and querySelectorAll\<close>

text \<open>
  When the loop of \<^verbatim>\<open>querySelectorAll\<close> returns a list, the list extends the matches
  collected so far, and the loop of \<^verbatim>\<open>querySelector\<close> on the same generator returns the
  first of the new matches.
\<close>

lemma querySelectorAll_loop_first:
  assumes "querySelectorAll_loop toUpperCase ops sels gen matchList = Some r"
  shows "\<forall>ys. r = Inr ys \<longrightarrow>
    (\<exists>zs. ys = matchList @ zs \<and>
      querySelector_loop toUpperCase ops sels gen = Some (Inr (case zs of [] \<Rightarrow> None | z # _ \<Rightarrow> Some z)))"
proof (rule querySelectorAll_loop.raw_induct [OF _ assms], goal_cases)
  case (1 loop toUpperCase ops sels gen matchList r)
  note IH = 1(1) and hyps = 1(2)
  show ?case
  proof (cases "next_node ops gen")
    case None
    then show ?thesis
      using hyps by (auto simp: querySelector_loop.simps [of toUpperCase ops sels gen])
  next
    case (Some p)
    obtain node gen' where p: "p = (node, gen')" by (cases p)
    show ?thesis
    proof (cases "matchSelectors toUpperCase ops node sels")
      case None
      then show ?thesis
        using hyps Some p by simp
    next
      case outcome: (Some m)
      show ?thesis
      proof (cases m)
        case (Inl e)
        then show ?thesis
          using hyps Some p outcome by auto
      next
        case (Inr b)
        then have rest: "loop toUpperCase ops sels gen' (if b then matchList @ [node] else matchList) = Some r"
          using hyps Some p outcome by simp
        show ?thesis
        proof (intro allI impI)
          fix ys assume ys: "r = Inr ys"
          from IH [OF rest] ys obtain zs where
            zs: "ys = (if b then matchList @ [node] else matchList) @ zs"
              "querySelector_loop toUpperCase ops sels gen' =
                 Some (Inr (case zs of [] \<Rightarrow> None | z # _ \<Rightarrow> Some z))"
            by blast
          show "\<exists>zs. ys = matchList @ zs \<and>
              querySelector_loop toUpperCase ops sels gen =
                Some (Inr (case zs of [] \<Rightarrow> None | z # _ \<Rightarrow> Some z))"
          proof (cases b)
            case True
            then have "ys = matchList @ (node # zs)"
              using zs(1) by simp
            moreover have "querySelector_loop toUpperCase ops sels gen = Some (Inr (Some node))"
              using True Some p outcome Inr
              by (simp add: querySelector_loop.simps [of toUpperCase ops sels gen])
            ultimately show ?thesis
              by (intro exI [of _ "node # zs"]) simp
          next
            case False
            then have "querySelector_loop toUpperCase ops sels gen = querySelector_loop toUpperCase ops sels gen'"
              using Some p outcome Inr
              by (simp add: querySelector_loop.simps [of toUpperCase ops sels gen])
            then show ?thesis
              using False zs by (intro exI [of _ zs]) simp
          qed
        qed
      qed
    qed
  qed
qed

text \<open>
  When the loop of \<^verbatim>\<open>querySelector\<close> returns \<^verbatim>\<open>null\<close>, no node matched, and the loop of
  \<^verbatim>\<open>querySelectorAll\<close> returns the matches it started with.
\<close>

lemma querySelector_loop_null:
  assumes "querySelector_loop toUpperCase ops sels gen = Some r"
  shows "r = Inr None \<longrightarrow> (\<forall>matchList.
    querySelectorAll_loop toUpperCase ops sels gen matchList = Some (Inr matchList))"
proof (rule querySelector_loop.raw_induct [OF _ assms], goal_cases)
  case (1 loop toUpperCase ops sels gen r)
  note IH = 1(1) and hyps = 1(2)
  show ?case
  proof (cases "next_node ops gen")
    case None
    then show ?thesis
      by (simp add: querySelectorAll_loop.simps [of toUpperCase ops sels gen])
  next
    case (Some p)
    obtain node gen' where p: "p = (node, gen')" by (cases p)
    show ?thesis
    proof (cases "matchSelectors toUpperCase ops node sels")
      case None
      then show ?thesis
        using hyps Some p by simp
    next
      case outcome: (Some m)
      show ?thesis
      proof (cases m)
        case (Inl e)
        then show ?thesis
          using hyps Some p outcome by auto
      next
        case (Inr b)
        show ?thesis
        proof (cases b)
          case True
          then show ?thesis
            using hyps Some p outcome Inr by auto
        next
          case False
          then have "loop toUpperCase ops sels gen' = Some r"
            using hyps Some p outcome Inr by simp
          from IH [OF this] show ?thesis
            using False Some p outcome Inr
            by (simp add: querySelectorAll_loop.simps [of toUpperCase ops sels gen])
        qed
      qed
    qed
  qed
qed

text \<open>
  C2, as stated, fails: from \<^verbatim>\<open>body\<close>, \<^verbatim>\<open>querySelector\<close> with \<^verbatim>\<open>div, x || article\<close> returns
  the first \<^verbatim>\<open>div\<close> without visiting the articles, and \<^verbatim>\<open>querySelectorAll\<close> goes on to the
  first article, where the column combinator raises: it has no first element.
\<close>

theorem querySelector_not_first_counterexample:
  "querySelector ascii_toUpperCase doc doc_parse Body ''div, x || article'' = Some (Inr (Some Container)) \<and>
   querySelectorAll ascii_toUpperCase doc doc_parse Body ''div, x || article'' = Some (Inl ColumnNotSupported)"
  by (simp add: query_defs match_defs selector_defs doc_defs)

text \<open>
  C2, amended: whenever \<^verbatim>\<open>querySelectorAll\<close> returns a sequence, \<^verbatim>\<open>querySelector\<close> returns
  its first element, or \<^verbatim>\<open>null\<close> when the sequence is empty; and whenever \<^verbatim>\<open>querySelector\<close>
  returns \<^verbatim>\<open>null\<close>, \<^verbatim>\<open>querySelectorAll\<close> returns the empty sequence.
\<close>

theorem querySelector_first_of_all:
  "(querySelectorAll toUpperCase ops parse start selectors = Some (Inr xs) \<longrightarrow>
      querySelector toUpperCase ops parse start selectors =
        Some (Inr (case xs of [] \<Rightarrow> None | x # _ \<Rightarrow> Some x))) \<and>
   (querySelector toUpperCase ops parse start selectors = Some (Inr None) \<longrightarrow>
      querySelectorAll toUpperCase ops parse start selectors = Some (Inr []))"
proof (cases "parse selectors")
  case (Inl e)
  then show ?thesis
    by (simp add: querySelector_def querySelectorAll_def)
next
  case (Inr sels)
  let ?gen = "preorderDepthFirstTraverse start False"
  have "querySelector_loop toUpperCase ops sels ?gen =
      Some (Inr (case xs of [] \<Rightarrow> None | x # _ \<Rightarrow> Some x))"
    if "querySelectorAll_loop toUpperCase ops sels ?gen [] = Some (Inr xs)"
    using querySelectorAll_loop_first [OF that] by simp
  moreover have "querySelectorAll_loop toUpperCase ops sels ?gen [] = Some (Inr [])"
    if "querySelector_loop toUpperCase ops sels ?gen = Some (Inr None)"
    using querySelector_loop_null [OF that] by simp
  ultimately show ?thesis
    by (simp add: querySelector_def querySelectorAll_def Inr)
qed

text \<open>
  On the document: \<^verbatim>\<open>.bad\<close> gives the third and the fourth article and \<^verbatim>\<open>querySelector\<close>
  gives the third; below the fifth article \<^verbatim>\<open>.gallery\<close> gives nothing and \<^verbatim>\<open>null\<close>.
\<close>

theorem querySelector_first_of_all_witness:
  "querySelectorAll ascii_toUpperCase doc doc_parse Body ''.bad'' = Some (Inr [Article3, Article4]) \<and>
   querySelector ascii_toUpperCase doc doc_parse Body ''.bad'' = Some (Inr (Some Article3)) \<and>
   querySelector ascii_toUpperCase doc doc_parse Gallery ''.gallery'' = Some (Inr None) \<and>
   querySelectorAll ascii_toUpperCase doc doc_parse Gallery ''.gallery'' = Some (Inr [])"
proof -
  have all: "querySelectorAll ascii_toUpperCase doc doc_parse Body ''.bad'' = Some (Inr [Article3, Article4])"
    by (simp add: query_defs match_defs selector_defs doc_defs)
  have none: "querySelector ascii_toUpperCase doc doc_parse Gallery ''.gallery'' = Some (Inr None)"
    by (simp add: query_defs match_defs selector_defs doc_defs)
  show ?thesis
    using querySelector_first_of_all [where toUpperCase = ascii_toUpperCase and ops = doc and parse = doc_parse and start = Body
        and selectors = "''.bad''" and xs = "[Article3, Article4]"]
      querySelector_first_of_all [where toUpperCase = ascii_toUpperCase and ops = doc and parse = doc_parse and start = Gallery
        and selectors = "''.gallery''" and xs = "[]"]
      all none
    by simp
qed

section \<open>Selector lists\<close>

lemma matchSelectors_append:
  "matchSelectors toUpperCase ops node (sa @ sb) =
     (case matchSelectors toUpperCase ops node sa of
        None \<Rightarrow> None
      | Some (Inl e) \<Rightarrow> Some (Inl e)
      | Some (Inr b) \<Rightarrow> if b then Some (Inr True) else matchSelectors toUpperCase ops node sb)"
  by (induction sa) (auto split: option.splits sum.splits)

text \<open>
  The selector list returns false when every member does. Any other outcome of the list
  is the outcome of its first member that does not return false: the members before it
  have returned false and the members after it are not evaluated.
\<close>

lemma matchSelectors_False:
  "matchSelectors toUpperCase ops node sels = Some (Inr False) \<longleftrightarrow>
     (\<forall>s \<in> set sels. matchComplexSelector toUpperCase ops node s = Some (Inr False))"
  by (induction sels) (auto split: option.splits sum.splits if_splits)

lemma matchSelectors_first:
  assumes "r \<noteq> Some (Inr False)"
  shows "matchSelectors toUpperCase ops node sels = r \<longleftrightarrow>
     (\<exists>before sel after. sels = before @ sel # after \<and>
        (\<forall>s \<in> set before. matchComplexSelector toUpperCase ops node s = Some (Inr False)) \<and>
        matchComplexSelector toUpperCase ops node sel = r)"
proof (induction sels)
  case Nil
  show ?case using assms by auto
next
  case (Cons s sels)
  show ?case
  proof (cases "matchComplexSelector toUpperCase ops node s = Some (Inr False)")
    case True
    have "(\<exists>before sel after. s # sels = before @ sel # after \<and>
          (\<forall>t \<in> set before. matchComplexSelector toUpperCase ops node t = Some (Inr False)) \<and>
          matchComplexSelector toUpperCase ops node sel = r) \<longleftrightarrow>
        (\<exists>before sel after. sels = before @ sel # after \<and>
          (\<forall>t \<in> set before. matchComplexSelector toUpperCase ops node t = Some (Inr False)) \<and>
          matchComplexSelector toUpperCase ops node sel = r)"
    proof
      assume "\<exists>before sel after. s # sels = before @ sel # after \<and>
          (\<forall>t \<in> set before. matchComplexSelector toUpperCase ops node t = Some (Inr False)) \<and>
          matchComplexSelector toUpperCase ops node sel = r"
      then obtain before sel after where split: "s # sels = before @ sel # after"
        and before: "\<forall>t \<in> set before. matchComplexSelector toUpperCase ops node t = Some (Inr False)"
        and sel: "matchComplexSelector toUpperCase ops node sel = r"
        by blast
      have "before \<noteq> []"
        using split sel True assms by auto
      then obtain rest where rest: "before = s # rest" "sels = rest @ sel # after"
        using split by (cases before) auto
      then show "\<exists>before sel after. sels = before @ sel # after \<and>
          (\<forall>t \<in> set before. matchComplexSelector toUpperCase ops node t = Some (Inr False)) \<and>
          matchComplexSelector toUpperCase ops node sel = r"
        using before sel by auto
    next
      assume "\<exists>before sel after. sels = before @ sel # after \<and>
          (\<forall>t \<in> set before. matchComplexSelector toUpperCase ops node t = Some (Inr False)) \<and>
          matchComplexSelector toUpperCase ops node sel = r"
      then obtain before sel after where "sels = before @ sel # after"
        and "\<forall>t \<in> set before. matchComplexSelector toUpperCase ops node t = Some (Inr False)"
        and "matchComplexSelector toUpperCase ops node sel = r"
        by blast
      then have "s # sels = (s # before) @ sel # after \<and>
          (\<forall>t \<in> set (s # before).
             matchComplexSelector toUpperCase ops node t = Some (Inr False)) \<and>
          matchComplexSelector toUpperCase ops node sel = r"
        using True by simp
      then show "\<exists>before sel after. s # sels = before @ sel # after \<and>
          (\<forall>t \<in> set before. matchComplexSelector toUpperCase ops node t = Some (Inr False)) \<and>
          matchComplexSelector toUpperCase ops node sel = r"
        by blast
    qed
    moreover have "matchSelectors toUpperCase ops node (s # sels) =
        matchSelectors toUpperCase ops node sels"
      using True by simp
    ultimately show ?thesis
      using Cons.IH by simp
  next
    case False
    then have here: "matchSelectors toUpperCase ops node (s # sels) =
        matchComplexSelector toUpperCase ops node s"
      by (auto split: option.splits sum.splits)
    have "(\<exists>before sel after. s # sels = before @ sel # after \<and>
          (\<forall>t \<in> set before. matchComplexSelector toUpperCase ops node t = Some (Inr False)) \<and>
          matchComplexSelector toUpperCase ops node sel = r) \<longleftrightarrow>
        matchComplexSelector toUpperCase ops node s = r"
    proof
      assume "\<exists>before sel after. s # sels = before @ sel # after \<and>
          (\<forall>t \<in> set before. matchComplexSelector toUpperCase ops node t = Some (Inr False)) \<and>
          matchComplexSelector toUpperCase ops node sel = r"
      then obtain before sel after where split: "s # sels = before @ sel # after"
        and before: "\<forall>t \<in> set before. matchComplexSelector toUpperCase ops node t = Some (Inr False)"
        and sel: "matchComplexSelector toUpperCase ops node sel = r"
        by blast
      have "before = []"
        using split before False by (cases before) auto
      then show "matchComplexSelector toUpperCase ops node s = r"
        using split sel by simp
    next
      assume "matchComplexSelector toUpperCase ops node s = r"
      then have "s # sels = [] @ s # sels \<and>
          (\<forall>t \<in> set []. matchComplexSelector toUpperCase ops node t = Some (Inr False)) \<and>
          matchComplexSelector toUpperCase ops node s = r"
        by simp
      then show "\<exists>before sel after. s # sels = before @ sel # after \<and>
          (\<forall>t \<in> set before. matchComplexSelector toUpperCase ops node t = Some (Inr False)) \<and>
          matchComplexSelector toUpperCase ops node sel = r"
        by blast
    qed
    then show ?thesis
      using here by simp
  qed
qed

text \<open>
  When the loop of \<^verbatim>\<open>querySelectorAll\<close> returns a list, the generator was finite, the match
  of every node returned a boolean, and the list is the matches collected so far followed
  by the nodes that match.
\<close>

lemma querySelectorAll_loop_Inr:
  assumes "querySelectorAll_loop toUpperCase ops sels gen matchList = Some r"
  shows "\<forall>ys. r = Inr ys \<longrightarrow>
    (\<exists>vs. yielded ops gen = Some vs \<and>
      (\<forall>n \<in> set vs. \<exists>b. matchSelectors toUpperCase ops n sels = Some (Inr b)) \<and>
      ys = matchList @ filter (\<lambda>n. matchSelectors toUpperCase ops n sels = Some (Inr True)) vs)"
proof (rule querySelectorAll_loop.raw_induct [OF _ assms], goal_cases)
  case (1 loop toUpperCase ops sels gen matchList r)
  note IH = 1(1) and hyps = 1(2)
  show ?case
  proof (cases "next_node ops gen")
    case None
    then show ?thesis
      using hyps by (auto simp: yielded_done)
  next
    case (Some p)
    obtain node gen' where p: "p = (node, gen')" by (cases p)
    show ?thesis
    proof (cases "matchSelectors toUpperCase ops node sels")
      case None
      then show ?thesis
        using hyps Some p by simp
    next
      case outcome: (Some m)
      show ?thesis
      proof (cases m)
        case (Inl e)
        then show ?thesis
          using hyps Some p outcome by auto
      next
        case (Inr b)
        then have rest: "loop toUpperCase ops sels gen' (if b then matchList @ [node] else matchList) = Some r"
          using hyps Some p outcome by simp
        have here: "yielded ops gen = map_option ((#) node) (yielded ops gen')"
          using Some p by (simp add: yielded_node)
        show ?thesis
        proof (intro allI impI)
          fix ys assume "r = Inr ys"
          with IH [OF rest] obtain vs where
            vs: "yielded ops gen' = Some vs"
              "\<forall>n \<in> set vs. \<exists>b. matchSelectors toUpperCase ops n sels = Some (Inr b)"
              "ys = (if b then matchList @ [node] else matchList) @
                 filter (\<lambda>n. matchSelectors toUpperCase ops n sels = Some (Inr True)) vs"
            by blast
          show "\<exists>vs. yielded ops gen = Some vs \<and>
              (\<forall>n \<in> set vs. \<exists>b. matchSelectors toUpperCase ops n sels = Some (Inr b)) \<and>
              ys = matchList @ filter (\<lambda>n. matchSelectors toUpperCase ops n sels = Some (Inr True)) vs"
            using vs outcome Inr by (intro exI [of _ "node # vs"]) (simp add: here)
        qed
      qed
    qed
  qed
qed

lemma querySelectorAll_Inr:
  assumes "parse selectors = Inr sels"
    and "querySelectorAll toUpperCase ops parse start selectors = Some (Inr xs)"
  shows "\<exists>vs. yielded ops (preorderDepthFirstTraverse start False) = Some vs \<and>
      (\<forall>n \<in> set vs. \<exists>b. matchSelectors toUpperCase ops n sels = Some (Inr b)) \<and>
      xs = filter (\<lambda>n. matchSelectors toUpperCase ops n sels = Some (Inr True)) vs"
proof -
  have "querySelectorAll_loop toUpperCase ops sels (preorderDepthFirstTraverse start False) [] =
      Some (Inr xs)"
    using assms by (simp add: querySelectorAll_def)
  from querySelectorAll_loop_Inr [OF this] show ?thesis
    by simp
qed

text \<open>
  \<^verbatim>\<open>querySelectorAll\<close> returns a sequence exactly when the generator is finite and the
  selector list returns a boolean on every visited node; the sequence is the visited nodes
  that the list matches.
\<close>

lemma querySelectorAll_Inr_iff:
  assumes "parse selectors = Inr sels"
  shows "querySelectorAll toUpperCase ops parse start selectors = Some (Inr xs) \<longleftrightarrow>
    (\<exists>vs. yielded ops (preorderDepthFirstTraverse start False) = Some vs \<and>
      (\<forall>n \<in> set vs. \<exists>b. matchSelectors toUpperCase ops n sels = Some (Inr b)) \<and>
      xs = filter (\<lambda>n. matchSelectors toUpperCase ops n sels = Some (Inr True)) vs)"
proof
  assume "querySelectorAll toUpperCase ops parse start selectors = Some (Inr xs)"
  with assms show "\<exists>vs. yielded ops (preorderDepthFirstTraverse start False) = Some vs \<and>
      (\<forall>n \<in> set vs. \<exists>b. matchSelectors toUpperCase ops n sels = Some (Inr b)) \<and>
      xs = filter (\<lambda>n. matchSelectors toUpperCase ops n sels = Some (Inr True)) vs"
    by (rule querySelectorAll_Inr)
next
  assume "\<exists>vs. yielded ops (preorderDepthFirstTraverse start False) = Some vs \<and>
      (\<forall>n \<in> set vs. \<exists>b. matchSelectors toUpperCase ops n sels = Some (Inr b)) \<and>
      xs = filter (\<lambda>n. matchSelectors toUpperCase ops n sels = Some (Inr True)) vs"
  then obtain vs where vs: "yielded ops (preorderDepthFirstTraverse start False) = Some vs"
    and each: "\<forall>n \<in> set vs. \<exists>b. matchSelectors toUpperCase ops n sels = Some (Inr b)"
    and xs: "xs = filter (\<lambda>n. matchSelectors toUpperCase ops n sels = Some (Inr True)) vs"
    by blast
  have "querySelectorAll toUpperCase ops parse start selectors =
      collect_matching (\<lambda>node. matchSelectors toUpperCase ops node sels) vs []"
    using assms vs by (rule querySelectorAll_collect)
  then show "querySelectorAll toUpperCase ops parse start selectors = Some (Inr xs)"
    using collect_matching_filter [OF each, of "[]"] xs by simp
qed

text \<open>
  The list \<open>sa @ sb\<close> on one node, when the list \<open>sa\<close> returns the boolean \<open>p\<close>: it matches
  when \<open>p\<close> holds, and otherwise it is the list \<open>sb\<close>.
\<close>

lemma matchSelectors_append_Inr:
  assumes "matchSelectors toUpperCase ops n sa = Some (Inr p)"
  shows "matchSelectors toUpperCase ops n (sa @ sb) =
      (if p then Some (Inr True) else matchSelectors toUpperCase ops n sb)"
  using assms by (simp add: matchSelectors_append)

lemma matchSelectors_append_bool:
  assumes "matchSelectors toUpperCase ops n (sa @ sb) = Some (Inr q)"
  shows "\<exists>p. matchSelectors toUpperCase ops n sa = Some (Inr p)"
  using assms by (auto simp: matchSelectors_append split: option.splits sum.splits)

lemma querySelectorAll_list_two:
  assumes a: "parse a = Inr sa" and ab: "parse ab = Inr (sa @ sb)"
  shows "querySelectorAll toUpperCase ops parse start ab = Some (Inr xs) \<longleftrightarrow>
    (\<exists>xa vs. querySelectorAll toUpperCase ops parse start a = Some (Inr xa) \<and>
       yielded ops (preorderDepthFirstTraverse start False) = Some vs \<and>
       (\<forall>n \<in> set vs. n \<notin> set xa \<longrightarrow>
          (\<exists>b. matchSelectors toUpperCase ops n sb = Some (Inr b))) \<and>
       xs = filter (\<lambda>n. n \<in> set xa \<or> matchSelectors toUpperCase ops n sb = Some (Inr True)) vs)"
proof
  assume returns: "querySelectorAll toUpperCase ops parse start ab = Some (Inr xs)"
  from querySelectorAll_Inr [where parse = parse and selectors = ab, OF ab returns]
  obtain vs where vs: "yielded ops (preorderDepthFirstTraverse start False) = Some vs"
    and each: "\<forall>n \<in> set vs. \<exists>b. matchSelectors toUpperCase ops n (sa @ sb) = Some (Inr b)"
    and xs: "xs = filter (\<lambda>n. matchSelectors toUpperCase ops n (sa @ sb) = Some (Inr True)) vs"
    by blast
  define xa where "xa = filter (\<lambda>n. matchSelectors toUpperCase ops n sa = Some (Inr True)) vs"
  have ma: "\<forall>n \<in> set vs. \<exists>p. matchSelectors toUpperCase ops n sa = Some (Inr p)"
  proof
    fix n assume "n \<in> set vs"
    then obtain q where "matchSelectors toUpperCase ops n (sa @ sb) = Some (Inr q)"
      using each by blast
    then show "\<exists>p. matchSelectors toUpperCase ops n sa = Some (Inr p)"
      by (rule matchSelectors_append_bool)
  qed
  have "\<exists>vs. yielded ops (preorderDepthFirstTraverse start False) = Some vs \<and>
      (\<forall>n \<in> set vs. \<exists>b. matchSelectors toUpperCase ops n sa = Some (Inr b)) \<and>
      xa = filter (\<lambda>n. matchSelectors toUpperCase ops n sa = Some (Inr True)) vs"
    using vs ma xa_def by blast
  then have result: "querySelectorAll toUpperCase ops parse start a = Some (Inr xa)"
    by (rule iffD2 [OF querySelectorAll_Inr_iff [where parse = parse and selectors = a, OF a]])
  have rest: "\<forall>n \<in> set vs. n \<notin> set xa \<longrightarrow>
      (\<exists>b. matchSelectors toUpperCase ops n sb = Some (Inr b))"
  proof (intro ballI impI)
    fix n assume n: "n \<in> set vs" "n \<notin> set xa"
    obtain p where p: "matchSelectors toUpperCase ops n sa = Some (Inr p)"
      using ma n(1) by blast
    have "\<not> p"
      using n p by (simp add: xa_def)
    then have "matchSelectors toUpperCase ops n (sa @ sb) = matchSelectors toUpperCase ops n sb"
      by (simp add: matchSelectors_append_Inr [OF p])
    moreover obtain q where "matchSelectors toUpperCase ops n (sa @ sb) = Some (Inr q)"
      using each n(1) by blast
    ultimately have "matchSelectors toUpperCase ops n sb = Some (Inr q)"
      by (rule trans [OF sym])
    then show "\<exists>b. matchSelectors toUpperCase ops n sb = Some (Inr b)"
      by (rule exI)
  qed
  have "xs = filter (\<lambda>n. n \<in> set xa \<or> matchSelectors toUpperCase ops n sb = Some (Inr True)) vs"
    unfolding xs
  proof (rule filter_cong [OF refl])
    fix n assume n: "n \<in> set vs"
    obtain p where p: "matchSelectors toUpperCase ops n sa = Some (Inr p)"
      using ma n by blast
    show "(matchSelectors toUpperCase ops n (sa @ sb) = Some (Inr True)) =
        (n \<in> set xa \<or> matchSelectors toUpperCase ops n sb = Some (Inr True))"
      by (cases p) (simp_all add: matchSelectors_append_Inr [OF p] xa_def n p)
  qed
  with result vs rest
  have "querySelectorAll toUpperCase ops parse start a = Some (Inr xa) \<and>
       yielded ops (preorderDepthFirstTraverse start False) = Some vs \<and>
       (\<forall>n \<in> set vs. n \<notin> set xa \<longrightarrow>
          (\<exists>b. matchSelectors toUpperCase ops n sb = Some (Inr b))) \<and>
       xs = filter (\<lambda>n. n \<in> set xa \<or> matchSelectors toUpperCase ops n sb = Some (Inr True)) vs"
    by (intro conjI)
  then show "\<exists>xa vs. querySelectorAll toUpperCase ops parse start a = Some (Inr xa) \<and>
       yielded ops (preorderDepthFirstTraverse start False) = Some vs \<and>
       (\<forall>n \<in> set vs. n \<notin> set xa \<longrightarrow>
          (\<exists>b. matchSelectors toUpperCase ops n sb = Some (Inr b))) \<and>
       xs = filter (\<lambda>n. n \<in> set xa \<or> matchSelectors toUpperCase ops n sb = Some (Inr True)) vs"
    by (intro exI)
next
  assume "\<exists>xa vs. querySelectorAll toUpperCase ops parse start a = Some (Inr xa) \<and>
       yielded ops (preorderDepthFirstTraverse start False) = Some vs \<and>
       (\<forall>n \<in> set vs. n \<notin> set xa \<longrightarrow>
          (\<exists>b. matchSelectors toUpperCase ops n sb = Some (Inr b))) \<and>
       xs = filter (\<lambda>n. n \<in> set xa \<or> matchSelectors toUpperCase ops n sb = Some (Inr True)) vs"
  then obtain xa vs where xa: "querySelectorAll toUpperCase ops parse start a = Some (Inr xa)"
    and vs: "yielded ops (preorderDepthFirstTraverse start False) = Some vs"
    and rest: "\<forall>n \<in> set vs. n \<notin> set xa \<longrightarrow>
      (\<exists>b. matchSelectors toUpperCase ops n sb = Some (Inr b))"
    and xs: "xs = filter
      (\<lambda>n. n \<in> set xa \<or> matchSelectors toUpperCase ops n sb = Some (Inr True)) vs"
    by (elim exE conjE)
  from querySelectorAll_Inr [where parse = parse and selectors = a, OF a xa]
  obtain ws where ws: "yielded ops (preorderDepthFirstTraverse start False) = Some ws"
    and ma': "\<forall>n \<in> set ws. \<exists>p. matchSelectors toUpperCase ops n sa = Some (Inr p)"
    and xa'': "xa = filter (\<lambda>n. matchSelectors toUpperCase ops n sa = Some (Inr True)) ws"
    by blast
  have "ws = vs"
    using ws vs by simp
  then have ma: "\<forall>n \<in> set vs. \<exists>p. matchSelectors toUpperCase ops n sa = Some (Inr p)"
    and xa': "xa = filter (\<lambda>n. matchSelectors toUpperCase ops n sa = Some (Inr True)) vs"
    using ma' xa'' by simp_all
  have each: "\<forall>n \<in> set vs. \<exists>b. matchSelectors toUpperCase ops n (sa @ sb) = Some (Inr b)"
  proof
    fix n assume n: "n \<in> set vs"
    obtain p where p: "matchSelectors toUpperCase ops n sa = Some (Inr p)"
      using ma n by blast
    show "\<exists>b. matchSelectors toUpperCase ops n (sa @ sb) = Some (Inr b)"
    proof (cases p)
      case True
      then have "matchSelectors toUpperCase ops n (sa @ sb) = Some (Inr True)"
        by (simp add: matchSelectors_append_Inr [OF p])
      then show ?thesis by (rule exI)
    next
      case False
      then have "n \<notin> set xa" using p n by (simp add: xa')
      then have "\<exists>b. matchSelectors toUpperCase ops n sb = Some (Inr b)"
        using rest n by blast
      then show ?thesis
        using False by (simp add: matchSelectors_append_Inr [OF p])
    qed
  qed
  have "xs = filter (\<lambda>n. matchSelectors toUpperCase ops n (sa @ sb) = Some (Inr True)) vs"
    unfolding xs
  proof (rule filter_cong [OF refl])
    fix n assume n: "n \<in> set vs"
    obtain p where p: "matchSelectors toUpperCase ops n sa = Some (Inr p)"
      using ma n by blast
    show "(n \<in> set xa \<or> matchSelectors toUpperCase ops n sb = Some (Inr True)) =
        (matchSelectors toUpperCase ops n (sa @ sb) = Some (Inr True))"
      by (cases p) (simp_all add: matchSelectors_append_Inr [OF p] xa' n p)
  qed
  with vs each
  have "\<exists>vs. yielded ops (preorderDepthFirstTraverse start False) = Some vs \<and>
      (\<forall>n \<in> set vs. \<exists>b. matchSelectors toUpperCase ops n (sa @ sb) = Some (Inr b)) \<and>
      xs = filter (\<lambda>n. matchSelectors toUpperCase ops n (sa @ sb) = Some (Inr True)) vs"
    by (intro exI conjI)
  then show "querySelectorAll toUpperCase ops parse start ab = Some (Inr xs)"
    by (rule iffD2 [OF querySelectorAll_Inr_iff [where parse = parse and selectors = ab, OF ab]])
qed

lemma querySelectorAll_union:
  assumes a: "parse a = Inr sa" and b: "parse b = Inr sb" and ab: "parse ab = Inr (sa @ sb)"
    and xa: "querySelectorAll toUpperCase ops parse start a = Some (Inr xa)"
    and xb: "querySelectorAll toUpperCase ops parse start b = Some (Inr xb)"
  shows "\<exists>vs. yielded ops (preorderDepthFirstTraverse start False) = Some vs \<and>
      querySelectorAll toUpperCase ops parse start ab =
        Some (Inr (filter (\<lambda>n. n \<in> set xa \<or> n \<in> set xb) vs))"
proof -
  from querySelectorAll_Inr [where parse = parse and selectors = b, OF b xb] obtain vs where
    vs: "yielded ops (preorderDepthFirstTraverse start False) = Some vs"
    and mb: "\<forall>n \<in> set vs. \<exists>b. matchSelectors toUpperCase ops n sb = Some (Inr b)"
    and xb': "xb = filter (\<lambda>n. matchSelectors toUpperCase ops n sb = Some (Inr True)) vs"
    by blast
  have "filter (\<lambda>n. n \<in> set xa \<or> matchSelectors toUpperCase ops n sb = Some (Inr True)) vs =
      filter (\<lambda>n. n \<in> set xa \<or> n \<in> set xb) vs"
    by (rule filter_cong [OF refl]) (simp add: xb')
  moreover have "\<forall>n \<in> set vs. n \<notin> set xa \<longrightarrow>
      (\<exists>b. matchSelectors toUpperCase ops n sb = Some (Inr b))"
    using mb by simp
  ultimately have "\<exists>xa' ws. querySelectorAll toUpperCase ops parse start a = Some (Inr xa') \<and>
      yielded ops (preorderDepthFirstTraverse start False) = Some ws \<and>
      (\<forall>n \<in> set ws. n \<notin> set xa' \<longrightarrow>
         (\<exists>b. matchSelectors toUpperCase ops n sb = Some (Inr b))) \<and>
      filter (\<lambda>n. n \<in> set xa \<or> n \<in> set xb) vs =
        filter (\<lambda>n. n \<in> set xa' \<or> matchSelectors toUpperCase ops n sb = Some (Inr True)) ws"
    using xa vs by (intro exI [of _ xa] exI [of _ vs] conjI) simp_all
  then have "querySelectorAll toUpperCase ops parse start ab =
      Some (Inr (filter (\<lambda>n. n \<in> set xa \<or> n \<in> set xb) vs))"
    by (rule iffD2 [OF querySelectorAll_list_two [OF a ab]])
  then show ?thesis
    using vs by (intro exI [of _ vs] conjI)
qed

text \<open>
  C8, as stated, fails when a member raises. The first article matches the member
  \<^verbatim>\<open>article\<close> of the list \<^verbatim>\<open>x || article, article\<close>, and the list does not match it: it
  raises. And \<^verbatim>\<open>querySelectorAll\<close> returns the six articles for \<^verbatim>\<open>article, x || article\<close>,
  which is no union of its results for \<^verbatim>\<open>article\<close> and for \<^verbatim>\<open>x || article\<close>: the latter
  raises.
\<close>

theorem selector_list_union_counterexample:
  "matchComplexSelector ascii_toUpperCase doc Article1 (single (by_type ''article'')) =
     Some (Inr True) \<and>
   matchSelectors ascii_toUpperCase doc Article1
     [\<lparr> head = by_type ''x'', tail = [(Column, by_type ''article'')] \<rparr>,
      single (by_type ''article'')] = Some (Inl ColumnNotSupported) \<and>
   querySelectorAll ascii_toUpperCase doc doc_parse Body ''article, x || article'' =
     Some (Inr [Article1, Article2, Article3, Article4, Article5, Article6]) \<and>
   querySelectorAll ascii_toUpperCase doc doc_parse Body ''article'' =
     Some (Inr [Article1, Article2, Article3, Article4, Article5, Article6]) \<and>
   querySelectorAll ascii_toUpperCase doc doc_parse Body ''x || article'' =
     Some (Inl ColumnNotSupported)"
  by (simp add: query_defs match_defs selector_defs doc_defs)

text \<open>
  C8, amended. A node matches a selector list exactly when it matches some member and
  every member before that one returns false on it; the list raises exactly when a member
  raises and every member before that one returns false; the list returns false exactly
  when every member returns false. With the parser giving for \<open>ab\<close> the list for \<open>a\<close>
  followed by the list \<open>sb\<close>: \<^verbatim>\<open>querySelectorAll\<close> returns a sequence for \<open>ab\<close> exactly when
  it returns a sequence for \<open>a\<close> and the list \<open>sb\<close> returns a boolean on every visited node
  that is not in that sequence; the sequence for \<open>ab\<close> is then the visited nodes that are
  in the sequence for \<open>a\<close> or that \<open>sb\<close> matches, in the order of the traversal. Whenever
  \<^verbatim>\<open>querySelectorAll\<close> returns a sequence for \<open>a\<close> and a sequence for \<open>b\<close>, whose list is
  \<open>sb\<close>, it returns for \<open>ab\<close> the visited nodes that are in one of the two, in the order of
  the traversal.
\<close>

theorem selector_list_union:
  "(matchSelectors toUpperCase ops node sels = Some (Inr True) \<longleftrightarrow>
      (\<exists>before sel after. sels = before @ sel # after \<and>
         (\<forall>s \<in> set before. matchComplexSelector toUpperCase ops node s = Some (Inr False)) \<and>
         matchComplexSelector toUpperCase ops node sel = Some (Inr True))) \<and>
   (matchSelectors toUpperCase ops node sels = Some (Inl e) \<longleftrightarrow>
      (\<exists>before sel after. sels = before @ sel # after \<and>
         (\<forall>s \<in> set before. matchComplexSelector toUpperCase ops node s = Some (Inr False)) \<and>
         matchComplexSelector toUpperCase ops node sel = Some (Inl e))) \<and>
   (matchSelectors toUpperCase ops node sels = Some (Inr False) \<longleftrightarrow>
      (\<forall>s \<in> set sels. matchComplexSelector toUpperCase ops node s = Some (Inr False))) \<and>
   (parse a = Inr sa \<and> parse ab = Inr (sa @ sb) \<longrightarrow>
      (querySelectorAll toUpperCase ops parse start ab = Some (Inr xs) \<longleftrightarrow>
         (\<exists>xa vs. querySelectorAll toUpperCase ops parse start a = Some (Inr xa) \<and>
            yielded ops (preorderDepthFirstTraverse start False) = Some vs \<and>
            (\<forall>n \<in> set vs. n \<notin> set xa \<longrightarrow>
               (\<exists>b. matchSelectors toUpperCase ops n sb = Some (Inr b))) \<and>
            xs = filter
              (\<lambda>n. n \<in> set xa \<or> matchSelectors toUpperCase ops n sb = Some (Inr True)) vs))) \<and>
   (parse a = Inr sa \<and> parse b = Inr sb \<and> parse ab = Inr (sa @ sb) \<and>
    querySelectorAll toUpperCase ops parse start a = Some (Inr xa) \<and>
    querySelectorAll toUpperCase ops parse start b = Some (Inr xb) \<longrightarrow>
      (\<exists>vs. yielded ops (preorderDepthFirstTraverse start False) = Some vs \<and>
         querySelectorAll toUpperCase ops parse start ab =
           Some (Inr (filter (\<lambda>n. n \<in> set xa \<or> n \<in> set xb) vs))))"
proof (intro conjI impI)
  show "matchSelectors toUpperCase ops node sels = Some (Inr True) \<longleftrightarrow>
      (\<exists>before sel after. sels = before @ sel # after \<and>
         (\<forall>s \<in> set before. matchComplexSelector toUpperCase ops node s = Some (Inr False)) \<and>
         matchComplexSelector toUpperCase ops node sel = Some (Inr True))"
    by (rule matchSelectors_first) simp
  show "matchSelectors toUpperCase ops node sels = Some (Inl e) \<longleftrightarrow>
      (\<exists>before sel after. sels = before @ sel # after \<and>
         (\<forall>s \<in> set before. matchComplexSelector toUpperCase ops node s = Some (Inr False)) \<and>
         matchComplexSelector toUpperCase ops node sel = Some (Inl e))"
    by (rule matchSelectors_first) simp
  show "matchSelectors toUpperCase ops node sels = Some (Inr False) \<longleftrightarrow>
      (\<forall>s \<in> set sels. matchComplexSelector toUpperCase ops node s = Some (Inr False))"
    by (rule matchSelectors_False)
next
  assume "parse a = Inr sa \<and> parse ab = Inr (sa @ sb)"
  then have "parse a = Inr sa" and "parse ab = Inr (sa @ sb)"
    by simp_all
  then show "querySelectorAll toUpperCase ops parse start ab = Some (Inr xs) \<longleftrightarrow>
      (\<exists>xa vs. querySelectorAll toUpperCase ops parse start a = Some (Inr xa) \<and>
         yielded ops (preorderDepthFirstTraverse start False) = Some vs \<and>
         (\<forall>n \<in> set vs. n \<notin> set xa \<longrightarrow>
            (\<exists>b. matchSelectors toUpperCase ops n sb = Some (Inr b))) \<and>
         xs = filter
           (\<lambda>n. n \<in> set xa \<or> matchSelectors toUpperCase ops n sb = Some (Inr True)) vs)"
    by (rule querySelectorAll_list_two)
next
  assume "parse a = Inr sa \<and> parse b = Inr sb \<and> parse ab = Inr (sa @ sb) \<and>
    querySelectorAll toUpperCase ops parse start a = Some (Inr xa) \<and>
    querySelectorAll toUpperCase ops parse start b = Some (Inr xb)"
  then have "parse a = Inr sa" and "parse b = Inr sb" and "parse ab = Inr (sa @ sb)"
    and "querySelectorAll toUpperCase ops parse start a = Some (Inr xa)"
    and "querySelectorAll toUpperCase ops parse start b = Some (Inr xb)"
    by simp_all
  then show "\<exists>vs. yielded ops (preorderDepthFirstTraverse start False) = Some vs \<and>
      querySelectorAll toUpperCase ops parse start ab =
        Some (Inr (filter (\<lambda>n. n \<in> set xa \<or> n \<in> set xb) vs))"
    by (rule querySelectorAll_union)
qed

theorem selector_list_union_witness:
  "matchComplexSelector ascii_toUpperCase doc Article1 (single (by_type ''article'')) =
     Some (Inr True) \<and>
   matchComplexSelector ascii_toUpperCase doc Article1
     \<lparr> head = by_type ''x'', tail = [(Column, by_type ''article'')] \<rparr> =
     Some (Inl ColumnNotSupported) \<and>
   matchSelectors ascii_toUpperCase doc Article1
     [single (by_type ''article''),
      \<lparr> head = by_type ''x'', tail = [(Column, by_type ''article'')] \<rparr>] = Some (Inr True) \<and>
   matchSelectors ascii_toUpperCase doc Article1
     [\<lparr> head = by_type ''x'', tail = [(Column, by_type ''article'')] \<rparr>,
      single (by_type ''article'')] = Some (Inl ColumnNotSupported) \<and>
   matchSelectors ascii_toUpperCase doc Container
     [single (by_class ''bad''), single (by_class ''gallery'')] = Some (Inr False) \<and>
   yielded doc (preorderDepthFirstTraverse Body False) =
     Some [Container, Gallery, Article1, Article2, Article3, Article4, Article5, Article6] \<and>
   doc_parse ''article, x || article'' =
     Inr ([single (by_type ''article'')] @
          [\<lparr> head = by_type ''x'', tail = [(Column, by_type ''article'')] \<rparr>]) \<and>
   querySelectorAll ascii_toUpperCase doc doc_parse Body ''article'' =
     Some (Inr [Article1, Article2, Article3, Article4, Article5, Article6]) \<and>
   matchSelectors ascii_toUpperCase doc Container
     [\<lparr> head = by_type ''x'', tail = [(Column, by_type ''article'')] \<rparr>] = Some (Inr False) \<and>
   matchSelectors ascii_toUpperCase doc Gallery
     [\<lparr> head = by_type ''x'', tail = [(Column, by_type ''article'')] \<rparr>] = Some (Inr False) \<and>
   querySelectorAll ascii_toUpperCase doc doc_parse Body ''article, x || article'' =
     Some (Inr [Article1, Article2, Article3, Article4, Article5, Article6]) \<and>
   doc_parse ''.bad, .gallery'' =
     Inr ([single (by_class ''bad'')] @ [single (by_class ''gallery'')]) \<and>
   querySelectorAll ascii_toUpperCase doc doc_parse Body ''.bad'' =
     Some (Inr [Article3, Article4]) \<and>
   querySelectorAll ascii_toUpperCase doc doc_parse Body ''.gallery'' = Some (Inr [Gallery]) \<and>
   querySelectorAll ascii_toUpperCase doc doc_parse Body ''.bad, .gallery'' =
     Some (Inr [Gallery, Article3, Article4])"
proof -
  let ?article = "single (by_type ''article'')"
  let ?column = "\<lparr> head = by_type ''x'', tail = [(Column, by_type ''article'')] \<rparr>"
  let ?bad = "single (by_class ''bad'')"
  let ?gallery = "single (by_class ''gallery'')"
  let ?articles = "[Article1, Article2, Article3, Article4, Article5, Article6]"
  let ?visited = "[Container, Gallery, Article1, Article2, Article3, Article4, Article5, Article6]"
  have members:
    "matchComplexSelector ascii_toUpperCase doc Article1 ?article = Some (Inr True)"
    "matchComplexSelector ascii_toUpperCase doc Article1 ?column = Some (Inl ColumnNotSupported)"
    "matchComplexSelector ascii_toUpperCase doc Container ?bad = Some (Inr False)"
    "matchComplexSelector ascii_toUpperCase doc Container ?gallery = Some (Inr False)"
    by (simp_all add: match_defs selector_defs doc_defs)
  have column:
    "matchSelectors ascii_toUpperCase doc Container [?column] = Some (Inr False)"
    "matchSelectors ascii_toUpperCase doc Gallery [?column] = Some (Inr False)"
    by (simp_all add: match_defs selector_defs doc_defs)
  have parsed:
    "doc_parse ''article'' = Inr [?article]"
    "doc_parse ''article, x || article'' = Inr ([?article] @ [?column])"
    "doc_parse ''.bad'' = Inr [?bad]"
    "doc_parse ''.gallery'' = Inr [?gallery]"
    "doc_parse ''.bad, .gallery'' = Inr ([?bad] @ [?gallery])"
    by (simp_all add: doc_parse_def)
  have results:
    "querySelectorAll ascii_toUpperCase doc doc_parse Body ''article'' = Some (Inr ?articles)"
    "querySelectorAll ascii_toUpperCase doc doc_parse Body ''.bad'' =
       Some (Inr [Article3, Article4])"
    "querySelectorAll ascii_toUpperCase doc doc_parse Body ''.gallery'' = Some (Inr [Gallery])"
    by (simp_all add: query_defs match_defs selector_defs doc_defs)
  have visited: "yielded doc (preorderDepthFirstTraverse Body False) = Some ?visited"
    by (simp add: preorderDepthFirstTraverse_def yielded.simps doc_defs)
  have "[?article, ?column] = [] @ ?article # [?column] \<and>
      (\<forall>s \<in> set []. matchComplexSelector ascii_toUpperCase doc Article1 s = Some (Inr False)) \<and>
      matchComplexSelector ascii_toUpperCase doc Article1 ?article = Some (Inr True)"
    using members(1) by simp
  then have "\<exists>before sel after. [?article, ?column] = before @ sel # after \<and>
      (\<forall>s \<in> set before.
         matchComplexSelector ascii_toUpperCase doc Article1 s = Some (Inr False)) \<and>
      matchComplexSelector ascii_toUpperCase doc Article1 sel = Some (Inr True)"
    by blast
  then have first: "matchSelectors ascii_toUpperCase doc Article1 [?article, ?column] =
      Some (Inr True)"
    by (rule selector_list_union [where toUpperCase = ascii_toUpperCase and ops = doc
          and node = Article1 and sels = "[?article, ?column]",
          THEN conjunct1, THEN iffD2])
  have "[?column, ?article] = [] @ ?column # [?article] \<and>
      (\<forall>s \<in> set []. matchComplexSelector ascii_toUpperCase doc Article1 s = Some (Inr False)) \<and>
      matchComplexSelector ascii_toUpperCase doc Article1 ?column =
        Some (Inl ColumnNotSupported)"
    using members(2) by simp
  then have "\<exists>before sel after. [?column, ?article] = before @ sel # after \<and>
      (\<forall>s \<in> set before.
         matchComplexSelector ascii_toUpperCase doc Article1 s = Some (Inr False)) \<and>
      matchComplexSelector ascii_toUpperCase doc Article1 sel = Some (Inl ColumnNotSupported)"
    by blast
  then have raised: "matchSelectors ascii_toUpperCase doc Article1 [?column, ?article] =
      Some (Inl ColumnNotSupported)"
    by (rule selector_list_union [where toUpperCase = ascii_toUpperCase and ops = doc
          and node = Article1 and sels = "[?column, ?article]" and e = ColumnNotSupported,
          THEN conjunct2, THEN conjunct1, THEN iffD2])
  have "\<forall>s \<in> set [?bad, ?gallery].
      matchComplexSelector ascii_toUpperCase doc Container s = Some (Inr False)"
    using members(3,4) by simp
  then have none: "matchSelectors ascii_toUpperCase doc Container [?bad, ?gallery] =
      Some (Inr False)"
    by (rule selector_list_union [where toUpperCase = ascii_toUpperCase and ops = doc
          and node = Container and sels = "[?bad, ?gallery]",
          THEN conjunct2, THEN conjunct2, THEN conjunct1, THEN iffD2])
  have "querySelectorAll ascii_toUpperCase doc doc_parse Body ''article'' =
        Some (Inr ?articles) \<and>
      yielded doc (preorderDepthFirstTraverse Body False) = Some ?visited \<and>
      (\<forall>n \<in> set ?visited. n \<notin> set ?articles \<longrightarrow>
         (\<exists>b. matchSelectors ascii_toUpperCase doc n [?column] = Some (Inr b))) \<and>
      ?articles = filter (\<lambda>n. n \<in> set ?articles \<or>
         matchSelectors ascii_toUpperCase doc n [?column] = Some (Inr True)) ?visited"
    using results(1) visited column by (auto simp del: matchSelectors.simps)
  then have "\<exists>xa vs. querySelectorAll ascii_toUpperCase doc doc_parse Body ''article'' =
        Some (Inr xa) \<and>
      yielded doc (preorderDepthFirstTraverse Body False) = Some vs \<and>
      (\<forall>n \<in> set vs. n \<notin> set xa \<longrightarrow>
         (\<exists>b. matchSelectors ascii_toUpperCase doc n [?column] = Some (Inr b))) \<and>
      ?articles = filter (\<lambda>n. n \<in> set xa \<or>
         matchSelectors ascii_toUpperCase doc n [?column] = Some (Inr True)) vs"
    by (intro exI)
  with parsed(1,2)
  have both: "querySelectorAll ascii_toUpperCase doc doc_parse Body ''article, x || article'' =
      Some (Inr ?articles)"
    using selector_list_union [where toUpperCase = ascii_toUpperCase and ops = doc
        and parse = doc_parse and start = Body and a = "''article''"
        and ab = "''article, x || article''" and sa = "[?article]" and sb = "[?column]"
        and xs = ?articles,
        THEN conjunct2, THEN conjunct2, THEN conjunct2, THEN conjunct1]
    by (simp only: simp_thms)
  have "\<exists>vs. yielded doc (preorderDepthFirstTraverse Body False) = Some vs \<and>
      querySelectorAll ascii_toUpperCase doc doc_parse Body ''.bad, .gallery'' =
        Some (Inr (filter (\<lambda>n. n \<in> set [Article3, Article4] \<or> n \<in> set [Gallery]) vs))"
    using selector_list_union [where toUpperCase = ascii_toUpperCase and ops = doc
        and parse = doc_parse and start = Body and a = "''.bad''" and b = "''.gallery''"
        and ab = "''.bad, .gallery''" and sa = "[?bad]" and sb = "[?gallery]"
        and xa = "[Article3, Article4]" and xb = "[Gallery]",
        THEN conjunct2, THEN conjunct2, THEN conjunct2, THEN conjunct2]
      parsed(3,4,5) results(2,3)
    by (simp only: simp_thms)
  then have union: "querySelectorAll ascii_toUpperCase doc doc_parse Body ''.bad, .gallery'' =
      Some (Inr [Gallery, Article3, Article4])"
    using visited by auto
  show ?thesis
    using members(1,2) first raised none visited parsed(2,5) results column both union
    by (intro conjI)
qed

section \<open>The column combinator\<close>

lemma matchComplexSelector_loop_append:
  "matchComplexSelector_loop toUpperCase ops (ps @ qs) candidates =
     (case matchComplexSelector_loop toUpperCase ops ps candidates of
        None \<Rightarrow> None
      | Some (Inl e) \<Rightarrow> Some (Inl e)
      | Some (Inr None) \<Rightarrow> Some (Inr None)
      | Some (Inr (Some collected)) \<Rightarrow> matchComplexSelector_loop toUpperCase ops qs collected)"
proof (induction ps arbitrary: candidates)
  case Nil
  show ?case by simp
next
  case (Cons pair ps)
  obtain combinator selector where pair: "pair = (combinator, selector)"
    by (cases pair)
  let ?filtered = "filter (\<lambda>t. matchCompoundSelector toUpperCase ops t selector) candidates"
  show ?case
  proof (cases "?filtered = []")
    case True
    then show ?thesis by (simp add: pair)
  next
    case False
    show ?thesis
    proof (cases "collectors ops combinator ?filtered")
      case None
      then show ?thesis using False by (simp add: pair)
    next
      case (Some r)
      then show ?thesis
        using False Cons.IH by (cases r) (simp_all add: pair)
    qed
  qed
qed

text \<open>
  The matching of a complex selector reaches a column combinator when the pairs to its
  right leave candidates of which one satisfies the compound selector of its pair; then
  the matcher raises.
\<close>

lemma matchComplexSelector_reaches_column:
  assumes "tail sel = left @ (Column, compound) # right"
    and "matchComplexSelector_loop toUpperCase ops (rev right) [node] = Some (Inr (Some candidates))"
    and "\<exists>t \<in> set candidates. matchCompoundSelector toUpperCase ops t compound"
  shows "matchComplexSelector toUpperCase ops node sel = Some (Inl ColumnNotSupported)"
proof -
  have "filter (\<lambda>t. matchCompoundSelector toUpperCase ops t compound) candidates \<noteq> []"
    using assms(3) by (simp add: filter_empty_conv)
  then have "matchComplexSelector_loop toUpperCase ops ((Column, compound) # rev left) candidates =
      Some (Inl ColumnNotSupported)"
    by (simp add: Let_def)
  then have "matchComplexSelector_loop toUpperCase ops (rev (tail sel)) [node] =
      Some (Inl ColumnNotSupported)"
    using assms(2) by (simp add: assms(1) matchComplexSelector_loop_append)
  then show ?thesis
    by (simp add: matchComplexSelector_def)
qed

text \<open>The members before the one that raises have not matched; those after it are not asked.\<close>

lemma matchSelectors_raises:
  assumes "\<forall>s \<in> set before. matchComplexSelector toUpperCase ops node s = Some (Inr False)"
    and "matchComplexSelector toUpperCase ops node sel = Some (Inl e)"
  shows "matchSelectors toUpperCase ops node (before @ sel # after) = Some (Inl e)"
  using assms by (induction before) simp_all

text \<open>The matchers raise no other error.\<close>

lemma collectors_error: "collectors ops combinator nodes = Some (Inl e) \<Longrightarrow> e = ColumnNotSupported"
  by (cases combinator) auto

lemma matchComplexSelector_loop_error:
  "matchComplexSelector_loop toUpperCase ops pairs candidates = Some (Inl e) \<Longrightarrow> e = ColumnNotSupported"
proof (induction pairs arbitrary: candidates)
  case Nil
  then show ?case by simp
next
  case (Cons pair pairs)
  obtain combinator selector where pair: "pair = (combinator, selector)"
    by (cases pair)
  show ?case
    using Cons.prems Cons.IH
    by (auto simp: pair Let_def dest: collectors_error split: if_splits option.splits sum.splits)
qed

lemma matchComplexSelector_error:
  "matchComplexSelector toUpperCase ops node sel = Some (Inl e) \<Longrightarrow> e = ColumnNotSupported"
  by (auto simp: matchComplexSelector_def dest: matchComplexSelector_loop_error
        split: option.splits sum.splits)

lemma matchSelectors_error:
  "matchSelectors toUpperCase ops node sels = Some (Inl e) \<Longrightarrow> e = ColumnNotSupported"
  by (induction sels)
     (auto dest: matchComplexSelector_error split: option.splits sum.splits if_splits)

text \<open>
  The loops over a sequence of nodes in which one node raises: \<^verbatim>\<open>querySelectorAll\<close> raises
  when the matches of the nodes before it return; \<^verbatim>\<open>querySelector\<close> raises when none of
  the nodes before it matches.
\<close>

lemma collect_matching_raises:
  assumes "\<forall>n \<in> set earlier. matches n \<noteq> None"
    and "\<forall>n \<in> set earlier. \<forall>e. matches n = Some (Inl e) \<longrightarrow> e = E"
    and "matches node = Some (Inl E)"
  shows "collect_matching matches (earlier @ node # later) matchList = Some (Inl E)"
  using assms
proof (induction earlier arbitrary: matchList)
  case Nil
  then show ?case by simp
next
  case (Cons n earlier)
  then obtain r where r: "matches n = Some r"
    by auto
  show ?case
  proof (cases r)
    case (Inl e)
    then show ?thesis using r Cons.prems by simp
  next
    case (Inr b)
    then show ?thesis using r Cons by simp
  qed
qed

lemma first_matching_raises:
  assumes "\<forall>n \<in> set earlier. matches n = Some (Inr False)"
    and "matches node = Some (Inl E)"
  shows "first_matching matches (earlier @ node # later) = Some (Inl E)"
  using assms by (induction earlier) simp_all

text \<open>
  C7: let a member of the parsed selector list have a column combinator in its tail, and
  let the matching of a visited node reach it: the members before it do not match the
  node, and the pairs right of the combinator leave a candidate that satisfies the
  compound selector of its pair. Then the selector list raises on this node, whatever the
  members after it are; \<^verbatim>\<open>querySelectorAll\<close> raises when the matches of the nodes visited
  earlier return, and \<^verbatim>\<open>querySelector\<close> raises when none of them matches.
\<close>

theorem column_raises:
  assumes "parse selectors = Inr (before @ sel # after)"
    and "\<forall>s \<in> set before. matchComplexSelector toUpperCase ops node s = Some (Inr False)"
    and "tail sel = left @ (Column, compound) # right"
    and "matchComplexSelector_loop toUpperCase ops (rev right) [node] = Some (Inr (Some candidates))"
    and "\<exists>t \<in> set candidates. matchCompoundSelector toUpperCase ops t compound"
    and "yielded ops (preorderDepthFirstTraverse start False) = Some (earlier @ node # later)"
    and "\<forall>n \<in> set earlier. matchSelectors toUpperCase ops n (before @ sel # after) \<noteq> None"
  shows "matchSelectors toUpperCase ops node (before @ sel # after) = Some (Inl ColumnNotSupported) \<and>
    querySelectorAll toUpperCase ops parse start selectors = Some (Inl ColumnNotSupported) \<and>
    ((\<forall>n \<in> set earlier. matchSelectors toUpperCase ops n (before @ sel # after) = Some (Inr False)) \<longrightarrow>
       querySelector toUpperCase ops parse start selectors = Some (Inl ColumnNotSupported))"
proof -
  let ?matches = "\<lambda>n. matchSelectors toUpperCase ops n (before @ sel # after)"
  have "matchComplexSelector toUpperCase ops node sel = Some (Inl ColumnNotSupported)"
    using assms(3-5) by (rule matchComplexSelector_reaches_column)
  with assms(2) have here: "?matches node = Some (Inl ColumnNotSupported)"
    by (rule matchSelectors_raises)
  have "querySelectorAll toUpperCase ops parse start selectors =
      collect_matching ?matches (earlier @ node # later) []"
    using assms(1,6) by (rule querySelectorAll_collect)
  moreover have "collect_matching ?matches (earlier @ node # later) [] =
      Some (Inl ColumnNotSupported)"
    using assms(7) here by (intro collect_matching_raises) (auto dest: matchSelectors_error)
  moreover have "querySelector toUpperCase ops parse start selectors =
      first_matching ?matches (earlier @ node # later)"
    using assms(1,6) by (rule querySelector_first)
  moreover have "first_matching ?matches (earlier @ node # later) =
      Some (Inl ColumnNotSupported)"
    if "\<forall>n \<in> set earlier. ?matches n = Some (Inr False)"
    using that here by (rule first_matching_raises)
  ultimately show ?thesis
    using here by simp
qed

text \<open>
  On the document, with \<^verbatim>\<open>x || article, article\<close>: the first article is reached after the
  two \<^verbatim>\<open>div\<close> elements; it matches the second member, and both queries raise.
\<close>

theorem column_raises_witness:
  "doc_parse ''x || article, article'' =
     Inr ([] @ \<lparr> head = by_type ''x'', tail = [] @ (Column, by_type ''article'') # [] \<rparr> #
       [single (by_type ''article'')]) \<and>
   matchCompoundSelector ascii_toUpperCase doc Article1 (by_type ''article'') \<and>
   matchComplexSelector ascii_toUpperCase doc Article1 (single (by_type ''article'')) = Some (Inr True) \<and>
   yielded doc (preorderDepthFirstTraverse Body False) =
     Some ([Container, Gallery] @ Article1 # [Article2, Article3, Article4, Article5, Article6]) \<and>
   matchSelectors ascii_toUpperCase doc Article1
     [\<lparr> head = by_type ''x'', tail = [(Column, by_type ''article'')] \<rparr>,
      single (by_type ''article'')] = Some (Inl ColumnNotSupported) \<and>
   querySelectorAll ascii_toUpperCase doc doc_parse Body ''x || article, article'' = Some (Inl ColumnNotSupported) \<and>
   querySelector ascii_toUpperCase doc doc_parse Body ''x || article, article'' = Some (Inl ColumnNotSupported)"
proof -
  let ?col = "\<lparr> head = by_type ''x'', tail = [] @ (Column, by_type ''article'') # [] \<rparr>"
  let ?sels = "[] @ ?col # [single (by_type ''article'')]"
  have parsed: "doc_parse ''x || article, article'' = Inr ?sels"
    by (simp add: doc_parse_def)
  have compound: "matchCompoundSelector ascii_toUpperCase doc Article1 (by_type ''article'')"
    by (simp add: match_defs selector_defs doc_defs)
  have alternative:
    "matchComplexSelector ascii_toUpperCase doc Article1 (single (by_type ''article'')) = Some (Inr True)"
    by (simp add: match_defs selector_defs doc_defs)
  have visited: "yielded doc (preorderDepthFirstTraverse Body False) =
      Some ([Container, Gallery] @ Article1 # [Article2, Article3, Article4, Article5, Article6])"
    by (simp add: preorderDepthFirstTraverse_def yielded.simps doc_defs)
  have earlier: "matchSelectors ascii_toUpperCase doc Container ?sels = Some (Inr False)"
    "matchSelectors ascii_toUpperCase doc Gallery ?sels = Some (Inr False)"
    by (simp_all add: match_defs selector_defs doc_defs)
  have "matchSelectors ascii_toUpperCase doc Article1 ?sels = Some (Inl ColumnNotSupported) \<and>
    querySelectorAll ascii_toUpperCase doc doc_parse Body ''x || article, article'' =
      Some (Inl ColumnNotSupported) \<and>
    ((\<forall>n \<in> set [Container, Gallery]. matchSelectors ascii_toUpperCase doc n ?sels = Some (Inr False)) \<longrightarrow>
       querySelector ascii_toUpperCase doc doc_parse Body ''x || article, article'' =
         Some (Inl ColumnNotSupported))"
  proof (rule column_raises [where toUpperCase = ascii_toUpperCase and left = "[]" and right = "[]" and candidates = "[Article1]"
        and compound = "by_type ''article''"])
    show "doc_parse ''x || article, article'' = Inr ?sels"
      by (rule parsed)
    show "\<forall>s \<in> set []. matchComplexSelector ascii_toUpperCase doc Article1 s = Some (Inr False)"
      by simp
    show "tail ?col = [] @ (Column, by_type ''article'') # []"
      by simp
    show "matchComplexSelector_loop ascii_toUpperCase doc (rev []) [Article1] = Some (Inr (Some [Article1]))"
      by simp
    show "\<exists>t \<in> set [Article1]. matchCompoundSelector ascii_toUpperCase doc t (by_type ''article'')"
      using compound by simp
    show "yielded doc (preorderDepthFirstTraverse Body False) =
        Some ([Container, Gallery] @ Article1 # [Article2, Article3, Article4, Article5, Article6])"
      by (rule visited)
    show "\<forall>n \<in> set [Container, Gallery]. matchSelectors ascii_toUpperCase doc n ?sels \<noteq> None"
      using earlier by (simp del: matchSelectors.simps)
  qed
  then show ?thesis
    using parsed compound alternative visited earlier
    by (simp del: matchSelectors.simps)
qed

section \<open>The capabilities the engine reads\<close>

lemma next_node_agree: "agree a b \<Longrightarrow> next_node a gen = next_node b gen"
  by (induction a gen rule: next_node.induct) (simp_all add: agree_def)

lemma matchSubClassSelector_agree:
  "agree a b \<Longrightarrow> matchSubClassSelector a node s = matchSubClassSelector b node s"
  by (cases s) (auto simp: agree_def split: option.splits)

lemma each_matches_agree: "agree a b \<Longrightarrow> each_matches a node l = each_matches b node l"
  by (induction l) (simp_all add: matchSubClassSelector_agree)

lemma matchCompoundSelector_agree:
  "agree a b \<Longrightarrow> matchCompoundSelector toUpperCase a node c = matchCompoundSelector toUpperCase b node c"
  by (auto simp: matchCompoundSelector_def each_matches_agree [of a b] agree_def
        split: option.splits)

lemma collectors_agree: "agree a b \<Longrightarrow> collectors a combinator nodes = collectors b combinator nodes"
  by (cases combinator) (simp_all add: agree_def)

lemma matchComplexSelector_loop_agree:
  "agree a b \<Longrightarrow>
   matchComplexSelector_loop toUpperCase a pairs candidates = matchComplexSelector_loop toUpperCase b pairs candidates"
proof (induction pairs arbitrary: candidates)
  case Nil
  show ?case by simp
next
  case (Cons pair pairs)
  obtain combinator selector where pair: "pair = (combinator, selector)"
    by (cases pair)
  have "filter (\<lambda>t. matchCompoundSelector toUpperCase a t selector) candidates =
      filter (\<lambda>t. matchCompoundSelector toUpperCase b t selector) candidates"
    using Cons.prems by (simp add: matchCompoundSelector_agree [of a b])
  moreover have "collectors a combinator nodes = collectors b combinator nodes" for nodes
    using Cons.prems by (rule collectors_agree)
  ultimately show ?case
    by (simp add: pair Let_def Cons.IH [OF Cons.prems] split: option.splits sum.splits)
qed

lemma matchComplexSelector_agree:
  "agree a b \<Longrightarrow> matchComplexSelector toUpperCase a node sel = matchComplexSelector toUpperCase b node sel"
  by (simp add: matchComplexSelector_def matchComplexSelector_loop_agree [of a b]
        matchCompoundSelector_agree [of a b] split: option.splits sum.splits)

lemma matchSelectors_agree:
  "agree a b \<Longrightarrow> matchSelectors toUpperCase a node sels = matchSelectors toUpperCase b node sels"
  by (induction sels)
     (simp_all add: matchComplexSelector_agree [of a b] split: option.splits sum.splits)

lemma agree_sym: "agree a b \<Longrightarrow> agree b a"
  by (simp add: agree_def)

text \<open>
  A loop that returns on one adapter returns the same on an adapter that agrees with it;
  hence the two loops are equal, also when they do not return.
\<close>

lemma querySelectorAll_loop_agree_Some:
  assumes "querySelectorAll_loop toUpperCase a sels gen matchList = Some r"
  shows "agree a b \<longrightarrow> querySelectorAll_loop toUpperCase b sels gen matchList = Some r"
proof (rule querySelectorAll_loop.raw_induct [OF _ assms], goal_cases)
  case (1 loop toUpperCase a sels gen matchList r)
  note IH = 1(1) and hyps = 1(2)
  show ?case
  proof
    assume agree: "agree a b"
    show "querySelectorAll_loop toUpperCase b sels gen matchList = Some r"
    proof (cases "next_node a gen")
      case None
      then show ?thesis
        using hyps next_node_agree [OF agree, of gen]
        by (simp add: querySelectorAll_loop.simps [of toUpperCase b sels gen])
    next
      case (Some p)
      obtain node gen' where p: "p = (node, gen')" by (cases p)
      have same: "next_node b gen = Some (node, gen')"
        "matchSelectors toUpperCase b node sels = matchSelectors toUpperCase a node sels"
        using Some p next_node_agree [OF agree, of gen] matchSelectors_agree [OF agree]
        by simp_all
      show ?thesis
      proof (cases "matchSelectors toUpperCase a node sels")
        case None
        then show ?thesis
          using hyps Some p by simp
      next
        case outcome: (Some m)
        show ?thesis
        proof (cases m)
          case (Inl e)
          then show ?thesis
            using hyps Some p outcome same
            by (simp add: querySelectorAll_loop.simps [of toUpperCase b sels gen])
        next
          case (Inr c)
          then have "loop toUpperCase a sels gen' (if c then matchList @ [node] else matchList) = Some r"
            using hyps Some p outcome by simp
          from IH [OF this] agree show ?thesis
            using outcome Inr same
            by (simp add: querySelectorAll_loop.simps [of toUpperCase b sels gen])
        qed
      qed
    qed
  qed
qed

lemma querySelector_loop_agree_Some:
  assumes "querySelector_loop toUpperCase a sels gen = Some r"
  shows "agree a b \<longrightarrow> querySelector_loop toUpperCase b sels gen = Some r"
proof (rule querySelector_loop.raw_induct [OF _ assms], goal_cases)
  case (1 loop toUpperCase a sels gen r)
  note IH = 1(1) and hyps = 1(2)
  show ?case
  proof
    assume agree: "agree a b"
    show "querySelector_loop toUpperCase b sels gen = Some r"
    proof (cases "next_node a gen")
      case None
      then show ?thesis
        using hyps next_node_agree [OF agree, of gen]
        by (simp add: querySelector_loop.simps [of toUpperCase b sels gen])
    next
      case (Some p)
      obtain node gen' where p: "p = (node, gen')" by (cases p)
      have same: "next_node b gen = Some (node, gen')"
        "matchSelectors toUpperCase b node sels = matchSelectors toUpperCase a node sels"
        using Some p next_node_agree [OF agree, of gen] matchSelectors_agree [OF agree]
        by simp_all
      show ?thesis
      proof (cases "matchSelectors toUpperCase a node sels")
        case None
        then show ?thesis
          using hyps Some p by simp
      next
        case outcome: (Some m)
        show ?thesis
        proof (cases m)
          case (Inl e)
          then show ?thesis
            using hyps Some p outcome same
            by (simp add: querySelector_loop.simps [of toUpperCase b sels gen])
        next
          case (Inr c)
          show ?thesis
          proof (cases c)
            case True
            then show ?thesis
              using hyps Some p outcome Inr same
              by (simp add: querySelector_loop.simps [of toUpperCase b sels gen])
          next
            case False
            then have "loop toUpperCase a sels gen' = Some r"
              using hyps Some p outcome Inr by simp
            from IH [OF this] agree show ?thesis
              using outcome Inr False same
              by (simp add: querySelector_loop.simps [of toUpperCase b sels gen])
          qed
        qed
      qed
    qed
  qed
qed

lemma querySelectorAll_loop_agree:
  assumes "agree a b"
  shows "querySelectorAll_loop toUpperCase a sels gen matchList = querySelectorAll_loop toUpperCase b sels gen matchList"
proof (cases "querySelectorAll_loop toUpperCase a sels gen matchList")
  case (Some r)
  then show ?thesis
    using querySelectorAll_loop_agree_Some [OF Some, of b] assms by simp
next
  case None
  show ?thesis
  proof (cases "querySelectorAll_loop toUpperCase b sels gen matchList")
    case (Some r)
    then show ?thesis
      using querySelectorAll_loop_agree_Some [OF Some, of a] agree_sym [OF assms] by simp
  next
    case inner: None
    then show ?thesis using None by simp
  qed
qed

lemma querySelector_loop_agree:
  assumes "agree a b"
  shows "querySelector_loop toUpperCase a sels gen = querySelector_loop toUpperCase b sels gen"
proof (cases "querySelector_loop toUpperCase a sels gen")
  case (Some r)
  then show ?thesis
    using querySelector_loop_agree_Some [OF Some, of b] assms by simp
next
  case None
  show ?thesis
  proof (cases "querySelector_loop toUpperCase b sels gen")
    case (Some r)
    then show ?thesis
      using querySelector_loop_agree_Some [OF Some, of a] agree_sym [OF assms] by simp
  next
    case inner: None
    then show ?thesis using None by simp
  qed
qed

text \<open>
  C10: two adapters that agree on \<^verbatim>\<open>getTagName\<close>, \<^verbatim>\<open>getID\<close>, \<^verbatim>\<open>hasClass\<close>, \<^verbatim>\<open>getParent\<close>,
  \<^verbatim>\<open>getChildren\<close>, \<^verbatim>\<open>getAttribute\<close> and \<^verbatim>\<open>getPreviouSibling\<close> give the same outcome of
  \<^verbatim>\<open>querySelector\<close> and of \<^verbatim>\<open>querySelectorAll\<close> for every root and every selector string:
  the same value, the same error, or no return for both. Their \<^verbatim>\<open>getNextSibling\<close> and
  \<^verbatim>\<open>getContent\<close> are not read.
\<close>

theorem queries_agree:
  assumes "agree a b"
  shows "querySelector toUpperCase a parse start selectors =
      querySelector toUpperCase b parse start selectors \<and>
    querySelectorAll toUpperCase a parse start selectors =
      querySelectorAll toUpperCase b parse start selectors"
  by (simp add: querySelector_def querySelectorAll_def
        querySelector_loop_agree [OF assms] querySelectorAll_loop_agree [OF assms]
      cong: sum.case_cong)

text \<open>
  The document with another \<^verbatim>\<open>getNextSibling\<close> and another \<^verbatim>\<open>getContent\<close> gives the same
  result.
\<close>

theorem queries_agree_witness:
  "agree doc (doc \<lparr> getContent := (\<lambda>e. []), getNextSibling := (\<lambda>e. Some Body) \<rparr>) \<and>
   getNextSibling doc Article1 = Some Article2 \<and>
   getNextSibling (doc \<lparr> getContent := (\<lambda>e. []), getNextSibling := (\<lambda>e. Some Body) \<rparr>) Article1 =
     Some Body \<and>
   querySelector ascii_toUpperCase (doc \<lparr> getContent := (\<lambda>e. []), getNextSibling := (\<lambda>e. Some Body) \<rparr>)
     doc_parse Body ''.bad'' = Some (Inr (Some Article3)) \<and>
   querySelectorAll ascii_toUpperCase (doc \<lparr> getContent := (\<lambda>e. []), getNextSibling := (\<lambda>e. Some Body) \<rparr>)
     doc_parse Body ''.bad'' = Some (Inr [Article3, Article4])"
proof -
  let ?other = "doc \<lparr> getContent := (\<lambda>e. []), getNextSibling := (\<lambda>e. Some Body) \<rparr>"
  have agree: "agree doc ?other"
    by (simp add: agree_def)
  have "querySelector ascii_toUpperCase doc doc_parse Body ''.bad'' = Some (Inr (Some Article3))"
    and "querySelectorAll ascii_toUpperCase doc doc_parse Body ''.bad'' = Some (Inr [Article3, Article4])"
    by (simp_all add: query_defs match_defs selector_defs doc_defs)
  then show ?thesis
    using queries_agree [OF agree, where toUpperCase = ascii_toUpperCase and parse = doc_parse
        and start = Body and selectors = "''.bad''"] agree
    by (simp add: doc_def)
qed

end
